theory Spec2Isabelle
  imports Main
begin

section \<open>A notes server over one JSON file\<close>

text \<open>
  The program is one HTTP request handler (\<^verbatim>\<open>index.js\<close>).  Every request reads the whole
  collection of notes from one file, possibly changes it in memory, writes the whole
  collection back, and answers in JSON (the routes under \<^verbatim>\<open>/api/notes\<close>) or in HTML.

  The embedding follows the source function by function:
  \<^item> values of the language are the datatype \<open>jsval\<close>; an exception is a value of the
    type \<open>error\<close>, and a computation that can throw has the type \<open>error + 'a\<close>;
  \<^item> the file is explicit state: the handler \<open>server\<close> takes the clock reading, the
    request and the file, and returns what the client gets together with the file
    afterwards;
  \<^item> the file holds text, and the library functions \<^verbatim>\<open>JSON.parse\<close> and
    \<^verbatim>\<open>JSON.stringify\<close> are modelled as functions on that text.

  Boundaries of the model:
  \<^item> numbers are mathematical integers, which is what the engine's doubles are up to
    \<open>2^53\<close>; a JSON numeral with a fraction or an exponent is outside the model (the model's
    parser rejects it where the engine accepts it);
  \<^item> a character is one 8-bit code unit; an escape \<^verbatim>\<open>\uXXXX\<close> above \<^verbatim>\<open>00FF\<close> is outside
    the model in the same way;
  \<^item> the keys of an object are kept in insertion order; the engine lists keys that are
    array indices first, which changes the order of the members in a text and nothing
    else;
  \<^item> requests are handled one at a time, and writing the file succeeds;
  \<^item> the body of a form request is given as the decoded name/value pairs that
    \<^verbatim>\<open>querystring.parse\<close> extracts from it, in order.
\<close>

subsection \<open>Values and exceptions\<close>

text \<open>
  \<open>JUndefined\<close> is the value of a missing property; it never occurs in parsed JSON.
  \<open>FsError c\<close> is a file-system error whose \<^verbatim>\<open>code\<close> property is \<open>c\<close>; the two other
  errors have no \<^verbatim>\<open>code\<close>.
\<close>

datatype jsval =
    JUndefined
  | JNull
  | JBool bool
  | JNum int
  | JStr string
  | JArr "jsval list"
  | JObj "(string \<times> jsval) list"

datatype error = SyntaxError | TypeError | FsError string

section \<open>JSON text\<close>

subsection \<open>Decimal numerals\<close>

text \<open>
  \<open>dec\<close> is the decimal numeral of a natural number, \<open>show_int\<close> the text of an
  integer (how a number is converted to a string), and \<open>dec_value\<close> the number a string of
  digits denotes (how \<^verbatim>\<open>Number\<close> reads the digits of a path segment).
\<close>

definition is_digit :: "char \<Rightarrow> bool" where
  "is_digit c = (c \<in> set ''0123456789'')"

definition digit_val :: "char \<Rightarrow> nat" where
  "digit_val c = of_char c - 48"

definition digit_char :: "nat \<Rightarrow> char" where
  "digit_char d = ''0123456789'' ! d"

fun dec :: "nat \<Rightarrow> string" where
  "dec n = (if n < 10 then [digit_char n] else dec (n div 10) @ [digit_char (n mod 10)])"

declare dec.simps [simp del]

definition dec_value :: "string \<Rightarrow> nat" where
  "dec_value s = foldl (\<lambda>a c. 10 * a + digit_val c) 0 s"

definition show_int :: "int \<Rightarrow> string" where
  "show_int i = (if i < 0 then CHR ''-'' # dec (nat (- i)) else dec (nat i))"

subsection \<open>\<^verbatim>\<open>JSON.stringify(value, null, gap)\<close>\<close>

text \<open>
  A string is written between double quotes, with the double quote, the backslash and the
  control characters escaped.  \<open>ser g ind v\<close> is the text of \<open>v\<close> at indentation \<open>ind\<close>
  with \<open>g\<close> spaces per level (\<open>g = 0\<close>: the compact form, no line breaks); it is \<open>None\<close>
  for \<open>undefined\<close>.  A member of an object whose value is \<open>undefined\<close> is left out, and
  an \<open>undefined\<close> element of an array is written \<^verbatim>\<open>null\<close>.
\<close>

definition hex_char :: "nat \<Rightarrow> char" where
  "hex_char d = ''0123456789abcdef'' ! d"

definition escape_char :: "char \<Rightarrow> string" where
  "escape_char c =
     (if c = CHR 0x22 then [CHR 0x5C, CHR 0x22]
      else if c = CHR 0x5C then [CHR 0x5C, CHR 0x5C]
      else if c = CHR 0x08 then [CHR 0x5C, CHR ''b'']
      else if c = CHR 0x0C then [CHR 0x5C, CHR ''f'']
      else if c = CHR 0x0A then [CHR 0x5C, CHR ''n'']
      else if c = CHR 0x0D then [CHR 0x5C, CHR ''r'']
      else if c = CHR 0x09 then [CHR 0x5C, CHR ''t'']
      else if of_char c < (32::nat) then
        [CHR 0x5C, CHR ''u'', CHR ''0'', CHR ''0'',
         hex_char (of_char c div 16), hex_char (of_char c mod 16)]
      else [c])"

definition quote :: "string \<Rightarrow> string" where
  "quote s = CHR 0x22 # concat (map escape_char s) @ [CHR 0x22]"

fun join :: "'a list \<Rightarrow> 'a list list \<Rightarrow> 'a list" where
  "join sep [] = []"
| "join sep [x] = x"
| "join sep (x # y # ys) = x @ sep @ join sep (y # ys)"

definition wrap :: "nat \<Rightarrow> string \<Rightarrow> string \<Rightarrow> string \<Rightarrow> string list \<Rightarrow> string" where
  "wrap g ind l r items =
     (let step = ind @ replicate g (CHR '' '') in
      if items = [] then l @ r
      else if g = 0 then l @ join '','' items @ r
      else l @ [CHR 0x0A] @ step @ join ('','' @ [CHR 0x0A] @ step) items @ [CHR 0x0A] @ ind @ r)"

fun ser :: "nat \<Rightarrow> string \<Rightarrow> jsval \<Rightarrow> string option" where
  "ser g ind JUndefined = None"
| "ser g ind JNull = Some ''null''"
| "ser g ind (JBool b) = Some (if b then ''true'' else ''false'')"
| "ser g ind (JNum n) = Some (show_int n)"
| "ser g ind (JStr s) = Some (quote s)"
| "ser g ind (JArr xs) =
     Some (wrap g ind ''['' '']''
       (map (\<lambda>x. case ser g (ind @ replicate g (CHR '' '')) x of None \<Rightarrow> ''null'' | Some s \<Rightarrow> s) xs))"
| "ser g ind (JObj kvs) =
     Some (wrap g ind ''{'' ''}''
       (concat (map (\<lambda>(k, v). case ser g (ind @ replicate g (CHR '' '')) v of
                        None \<Rightarrow> []
                      | Some s \<Rightarrow> [quote k @ (if g = 0 then '':'' else '': '') @ s]) kvs)))"

definition JSON_stringify :: "nat \<Rightarrow> jsval \<Rightarrow> string option" where
  "JSON_stringify g v = ser g [] v"

subsection \<open>\<^verbatim>\<open>JSON.parse(text)\<close>\<close>

text \<open>
  Parsing has two stages.  \<open>lex\<close> splits the text into tokens, skipping the four
  white-space characters of JSON between them; \<open>run\<close> reads the tokens with a stack of
  the arrays and objects that are still open.  A second member with a key the object
  already has replaces the value at the key's first position, as the engine does.  Every
  failure is the engine's \<open>SyntaxError\<close>.
\<close>

datatype token =
    TLBrace | TRBrace | TLBrack | TRBrack | TComma | TColon
  | TStr string | TNum int | TTrue | TFalse | TNull

definition is_ws :: "char \<Rightarrow> bool" where
  "is_ws c = (c = CHR '' '' \<or> c = CHR 0x09 \<or> c = CHR 0x0A \<or> c = CHR 0x0D)"

definition hex_val :: "char \<Rightarrow> nat option" where
  "hex_val c =
     (if is_digit c then Some (digit_val c)
      else if c \<in> set ''abcdef'' then Some (of_char c - 87)
      else if c \<in> set ''ABCDEF'' then Some (of_char c - 55)
      else None)"

definition unicode_escape :: "char \<Rightarrow> char \<Rightarrow> char \<Rightarrow> char \<Rightarrow> char option" where
  "unicode_escape h1 h2 h3 h4 =
     (case (hex_val h1, hex_val h2, hex_val h3, hex_val h4) of
        (Some a, Some b, Some c, Some d) \<Rightarrow>
          (if a = 0 \<and> b = 0 then Some (char_of (16 * c + d)) else None)
      | _ \<Rightarrow> None)"

definition unescape :: "char \<Rightarrow> char option" where
  "unescape e =
     (if e = CHR 0x22 then Some (CHR 0x22)
      else if e = CHR 0x5C then Some (CHR 0x5C)
      else if e = CHR ''/'' then Some (CHR ''/'')
      else if e = CHR ''b'' then Some (CHR 0x08)
      else if e = CHR ''f'' then Some (CHR 0x0C)
      else if e = CHR ''n'' then Some (CHR 0x0A)
      else if e = CHR ''r'' then Some (CHR 0x0D)
      else if e = CHR ''t'' then Some (CHR 0x09)
      else None)"

fun lex_string :: "string \<Rightarrow> (string \<times> string) option" where
  "lex_string [] = None"
| "lex_string (c # cs) =
     (if c = CHR 0x22 then Some ([], cs)
      else if c = CHR 0x5C then
        (case cs of
           [] \<Rightarrow> None
         | e # r \<Rightarrow>
             if e = CHR ''u'' then
               (case r of
                  h1 # h2 # h3 # h4 # r' \<Rightarrow>
                    (case unicode_escape h1 h2 h3 h4 of
                       None \<Rightarrow> None
                     | Some ch \<Rightarrow>
                         (case lex_string r' of
                            None \<Rightarrow> None
                          | Some (s, t) \<Rightarrow> Some (ch # s, t)))
                | _ \<Rightarrow> None)
             else
               (case unescape e of
                  None \<Rightarrow> None
                | Some ch \<Rightarrow>
                    (case lex_string r of
                       None \<Rightarrow> None
                     | Some (s, t) \<Rightarrow> Some (ch # s, t))))
      else if of_char c < (32::nat) then None
      else (case lex_string cs of None \<Rightarrow> None | Some (s, t) \<Rightarrow> Some (c # s, t)))"

definition punct :: "char \<Rightarrow> token option" where
  "punct c =
     (if c = CHR ''{'' then Some TLBrace
      else if c = CHR ''}'' then Some TRBrace
      else if c = CHR ''['' then Some TLBrack
      else if c = CHR '']'' then Some TRBrack
      else if c = CHR '','' then Some TComma
      else if c = CHR '':'' then Some TColon
      else None)"

definition lex_number :: "string \<Rightarrow> (int \<times> string) option" where
  "lex_number s =
     (let neg = (s \<noteq> [] \<and> hd s = CHR ''-'');
          t = (if neg then tl s else s);
          ds = takeWhile is_digit t
      in if ds = [] \<or> (hd ds = CHR ''0'' \<and> 1 < length ds) then None
         else Some (if neg then - int (dec_value ds) else int (dec_value ds),
                    dropWhile is_digit t))"

definition lex_word :: "string \<Rightarrow> (token \<times> string) option" where
  "lex_word s =
     (if take 4 s = ''true'' then Some (TTrue, drop 4 s)
      else if take 5 s = ''false'' then Some (TFalse, drop 5 s)
      else if take 4 s = ''null'' then Some (TNull, drop 4 s)
      else None)"

definition lex_token :: "string \<Rightarrow> (token \<times> string) option" where
  "lex_token s =
     (case s of
        [] \<Rightarrow> None
      | c # cs \<Rightarrow>
          (case punct c of
             Some t \<Rightarrow> Some (t, cs)
           | None \<Rightarrow>
               if c = CHR 0x22 then
                 (case lex_string cs of None \<Rightarrow> None | Some (x, r) \<Rightarrow> Some (TStr x, r))
               else if c = CHR ''-'' \<or> is_digit c then
                 (case lex_number s of None \<Rightarrow> None | Some (n, r) \<Rightarrow> Some (TNum n, r))
               else lex_word s))"

lemma lex_string_length: "lex_string cs = Some (s, r) \<Longrightarrow> length r < length cs"
  by (induction cs arbitrary: s r rule: lex_string.induct)
     (fastforce split: if_splits list.splits option.splits)+

lemma lex_token_length: "lex_token s = Some (t, r) \<Longrightarrow> length r < length s"
  by (auto simp: lex_token_def lex_number_def lex_word_def Let_def
        split: list.splits option.splits if_splits dest: lex_string_length
        intro: le_less_trans [OF length_dropWhile_le])

function lex :: "string \<Rightarrow> token list option" where
  "lex s =
     (case s of
        [] \<Rightarrow> Some []
      | c # cs \<Rightarrow>
          if is_ws c then lex cs
          else (case lex_token s of
                  None \<Rightarrow> None
                | Some (t, r) \<Rightarrow> (case lex r of None \<Rightarrow> None | Some ts \<Rightarrow> Some (t # ts))))"
  by pat_completeness auto
termination
  by (relation "measure length") (auto dest: lex_token_length)

declare lex.simps [simp del]

fun set_prop :: "(string \<times> jsval) list \<Rightarrow> string \<Rightarrow> jsval \<Rightarrow> (string \<times> jsval) list" where
  "set_prop [] k v = [(k, v)]"
| "set_prop ((k', v') # kvs) k v =
     (if k' = k then (k, v) # kvs else (k', v') # set_prop kvs k v)"

datatype frame =
    FArr "jsval list"
  | FObj "(string \<times> jsval) list"
  | FMem "(string \<times> jsval) list" string

datatype mode = MVal | MFirst | MKey0 | MKey | MColon | MSep | MEnd jsval

fun deliver :: "frame list \<Rightarrow> jsval \<Rightarrow> (mode \<times> frame list) option" where
  "deliver [] v = Some (MEnd v, [])"
| "deliver (FArr acc # st) v = Some (MSep, FArr (acc @ [v]) # st)"
| "deliver (FMem acc k # st) v = Some (MSep, FObj (set_prop acc k v) # st)"
| "deliver (FObj acc # st) v = None"

fun open_value :: "frame list \<Rightarrow> token \<Rightarrow> (mode \<times> frame list) option" where
  "open_value st TLBrack = Some (MFirst, FArr [] # st)"
| "open_value st TLBrace = Some (MKey0, FObj [] # st)"
| "open_value st (TStr s) = deliver st (JStr s)"
| "open_value st (TNum n) = deliver st (JNum n)"
| "open_value st TTrue = deliver st (JBool True)"
| "open_value st TFalse = deliver st (JBool False)"
| "open_value st TNull = deliver st JNull"
| "open_value st _ = None"

fun key_tok :: "frame list \<Rightarrow> token \<Rightarrow> (mode \<times> frame list) option" where
  "key_tok (FObj acc # st) (TStr k) = Some (MColon, FMem acc k # st)"
| "key_tok _ _ = None"

fun close_tok :: "frame list \<Rightarrow> token \<Rightarrow> (mode \<times> frame list) option" where
  "close_tok (FArr acc # st) TRBrack = deliver st (JArr acc)"
| "close_tok (FObj acc # st) TRBrace = deliver st (JObj acc)"
| "close_tok _ _ = None"

fun pstep :: "mode \<times> frame list \<Rightarrow> token \<Rightarrow> (mode \<times> frame list) option" where
  "pstep (MVal, st) t = open_value st t"
| "pstep (MFirst, st) t = (if t = TRBrack then close_tok st t else open_value st t)"
| "pstep (MKey0, st) t = (if t = TRBrace then close_tok st t else key_tok st t)"
| "pstep (MKey, st) t = key_tok st t"
| "pstep (MColon, st) t = (if t = TColon then Some (MVal, st) else None)"
| "pstep (MSep, st) t =
     (if t = TComma then
        (case st of
           FArr acc # st' \<Rightarrow> Some (MVal, st)
         | FObj acc # st' \<Rightarrow> Some (MKey, st)
         | _ \<Rightarrow> None)
      else close_tok st t)"
| "pstep (MEnd v, st) t = None"

fun run :: "token list \<Rightarrow> mode \<times> frame list \<Rightarrow> (mode \<times> frame list) option" where
  "run [] s = Some s"
| "run (t # ts) s = (case pstep s t of None \<Rightarrow> None | Some s' \<Rightarrow> run ts s')"

definition JSON_parse :: "string \<Rightarrow> error + jsval" where
  "JSON_parse s =
     (case lex s of
        None \<Rightarrow> Inl SyntaxError
      | Some ts \<Rightarrow>
          (case run ts (MVal, []) of
             Some (MEnd v, st) \<Rightarrow> Inr v
           | _ \<Rightarrow> Inl SyntaxError))"

section \<open>The program\<close>

subsection \<open>Property reads and object spread\<close>

text \<open>
  \<open>get_prop v k\<close> is the read \<^verbatim>\<open>v.k\<close> for the three names the program reads
  (\<^verbatim>\<open>id\<close>, \<^verbatim>\<open>title\<close>, \<^verbatim>\<open>content\<close>), none of which a prototype defines: it throws on
  \<^verbatim>\<open>null\<close> and \<^verbatim>\<open>undefined\<close>, is the own property of an object, and \<^verbatim>\<open>undefined\<close>
  otherwise.  \<open>as_array\<close> is the check behind a call of an array method
  (\<^verbatim>\<open>find\<close>, \<^verbatim>\<open>findIndex\<close>, \<^verbatim>\<open>push\<close>, \<^verbatim>\<open>splice\<close>, \<^verbatim>\<open>map\<close>): on anything that parsing
  can return but an array, the method is missing and the call throws.

  \<open>merge_note a b\<close> is the object literal \<^verbatim>\<open>{ ...a, ...b }\<close>: the own enumerable
  properties of \<open>a\<close>, then those of \<open>b\<close>, each set on the new object (a key it already
  has keeps its position and takes the new value).  An array or a string spreads its
  indices; the other values spread nothing.
\<close>

fun lookup :: "(string \<times> jsval) list \<Rightarrow> string \<Rightarrow> jsval" where
  "lookup [] k = JUndefined"
| "lookup ((k', v) # kvs) k = (if k' = k then v else lookup kvs k)"

definition get_prop :: "jsval \<Rightarrow> string \<Rightarrow> error + jsval" where
  "get_prop v k =
     (case v of
        JUndefined \<Rightarrow> Inl TypeError
      | JNull \<Rightarrow> Inl TypeError
      | JObj kvs \<Rightarrow> Inr (lookup kvs k)
      | _ \<Rightarrow> Inr JUndefined)"

definition as_array :: "jsval \<Rightarrow> error + jsval list" where
  "as_array v = (case v of JArr xs \<Rightarrow> Inr xs | _ \<Rightarrow> Inl TypeError)"

definition index_props :: "jsval list \<Rightarrow> (string \<times> jsval) list" where
  "index_props xs = zip (map dec [0..<length xs]) xs"

definition own_props :: "jsval \<Rightarrow> (string \<times> jsval) list" where
  "own_props v =
     (case v of
        JObj kvs \<Rightarrow> kvs
      | JArr xs \<Rightarrow> index_props xs
      | JStr s \<Rightarrow> index_props (map (\<lambda>c. JStr [c]) s)
      | _ \<Rightarrow> [])"

definition spread :: "(string \<times> jsval) list \<Rightarrow> jsval \<Rightarrow> (string \<times> jsval) list" where
  "spread acc v = fold (\<lambda>(k, x) kvs. set_prop kvs k x) (own_props v) acc"

definition merge_note :: "jsval \<Rightarrow> jsval \<Rightarrow> jsval" where
  "merge_note a b = JObj (spread (spread [] a) b)"

subsection \<open>The notes file (lines 12-23)\<close>

text \<open>
  \<open>Unreadable c\<close>: reading the file fails with the error code \<open>c\<close> (\<^verbatim>\<open>ENOENT\<close> when
  there is no file).  \<open>Contents s\<close>: the file holds the text \<open>s\<close>.  \<open>readNotes\<close> is the
  source's \<^verbatim>\<open>try\<close> around reading and parsing, with its \<^verbatim>\<open>catch\<close> testing the error's
  code; \<open>writeNotes\<close> replaces the file by the text of its argument, indented by two
  spaces (the text of \<open>undefined\<close> does not exist, and passing it on throws).
\<close>

datatype notes_file = Unreadable string | Contents string

definition readFile :: "notes_file \<Rightarrow> error + string" where
  "readFile f = (case f of Unreadable c \<Rightarrow> Inl (FsError c) | Contents s \<Rightarrow> Inr s)"

definition error_code :: "error \<Rightarrow> string option" where
  "error_code e = (case e of FsError c \<Rightarrow> Some c | _ \<Rightarrow> None)"

definition readNotes :: "notes_file \<Rightarrow> error + jsval" where
  "readNotes f =
     (case (case readFile f of Inl e \<Rightarrow> Inl e | Inr raw \<Rightarrow> JSON_parse raw) of
        Inl e \<Rightarrow> (if error_code e = Some ''ENOENT'' then Inr (JArr []) else Inl e)
      | Inr notes \<Rightarrow> Inr notes)"

definition writeNotes :: "jsval \<Rightarrow> error + notes_file" where
  "writeNotes notes =
     (case JSON_stringify 2 notes of None \<Rightarrow> Inl TypeError | Some s \<Rightarrow> Inr (Contents s))"

subsection \<open>String conversion and truthiness\<close>

text \<open>
  A template literal converts each interpolated value with the language's \<open>ToString\<close>:
  an array joins its elements with commas (\<open>null\<close> and \<open>undefined\<close> elements as the
  empty string); an ordinary object is \<open>[object Object]\<close>, unless it has an own
  \<open>toString\<close> property, which parsed data can only hold as a non-callable value, so that
  the conversion throws a \<open>TypeError\<close>.
\<close>

fun collect :: "(error + 'a) list \<Rightarrow> error + 'a list" where
  "collect [] = Inr []"
| "collect (Inl e # rs) = Inl e"
| "collect (Inr x # rs) = (case collect rs of Inl e \<Rightarrow> Inl e | Inr xs \<Rightarrow> Inr (x # xs))"

fun to_string :: "jsval \<Rightarrow> error + string" where
  "to_string JUndefined = Inr ''undefined''"
| "to_string JNull = Inr ''null''"
| "to_string (JBool b) = Inr (if b then ''true'' else ''false'')"
| "to_string (JNum n) = Inr (show_int n)"
| "to_string (JStr s) = Inr s"
| "to_string (JArr xs) =
     (case collect (map (\<lambda>x. if x = JUndefined \<or> x = JNull then Inr [] else to_string x) xs) of
        Inl e \<Rightarrow> Inl e
      | Inr ss \<Rightarrow> Inr (join '','' ss))"
| "to_string (JObj kvs) =
     (if ''toString'' \<in> fst ` set kvs then Inl TypeError else Inr ''[object Object]'')"

definition truthy :: "jsval \<Rightarrow> bool" where
  "truthy v = (v \<notin> {JUndefined, JNull, JBool False, JNum 0, JStr []})"

subsection \<open>HTML templates (lines 26-89)\<close>

text \<open>
  Each function returns its template with the interpolated values converted to strings,
  line by line as in the source.  \<open>renderNote\<close> is the body of the \<^verbatim>\<open>map\<close> in
  \<open>renderNotesList\<close>; \<open>or_empty v\<close> is \<^verbatim>\<open>v || ''\<close>.
\<close>

definition renderLayout :: "jsval \<Rightarrow> string \<Rightarrow> error + string" where
  \<open>renderLayout title content =
     (case to_string title of
        Inl e \<Rightarrow> Inl e
      | Inr t \<Rightarrow> Inr (concat
          [''\<newline>'',
           ''    <!DOCTYPE html>\<newline>'',
           ''    <html>\<newline>'',
           ''    <head>\<newline>'',
           ''        <title>'',
           t,
           ''</title>\<newline>'',
           ''        <style>\<newline>'',
           ''            body { font-family: sans-serif; margin: 2em; }\<newline>'',
           ''            .note { border: 1px solid #ccc; padding: 1em; margin-bottom: 1em; }\<newline>'',
           ''            a { text-decoration: none; color: #0074d9; }\<newline>'',
           ''        </style>\<newline>'',
           ''    </head>\<newline>'',
           ''    <body>\<newline>'',
           ''        <h1>'',
           t,
           ''</h1>\<newline>'',
           ''        '',
           content,
           ''\<newline>'',
           ''    </body>\<newline>'',
           ''    </html>\<newline>'',
           ''    '']))\<close>

definition renderNote :: "jsval \<Rightarrow> error + string" where
  \<open>renderNote note =
     (case get_prop note ''id'' of
        Inl e \<Rightarrow> Inl e
      | Inr nid \<Rightarrow>
     (case to_string nid of
        Inl e \<Rightarrow> Inl e
      | Inr i \<Rightarrow>
     (case get_prop note ''title'' of
        Inl e \<Rightarrow> Inl e
      | Inr title \<Rightarrow>
     (case to_string title of
        Inl e \<Rightarrow> Inl e
      | Inr t \<Rightarrow> Inr (concat
          [''\<newline>'',
           ''                <div class="note">\<newline>'',
           ''                    <h3><a href="/notes/'',
           i,
           ''">'',
           t,
           ''</a></h3>\<newline>'',
           ''                    <form method="POST" action="/notes/'',
           i,
           ''/delete" style="display:inline;">\<newline>'',
           ''                        <button type="submit">Delete</button>\<newline>'',
           ''                    </form>\<newline>'',
           ''                </div>\<newline>'',
           ''            ''])))))\<close>

definition renderNotesList :: "jsval \<Rightarrow> error + string" where
  \<open>renderNotesList notes =
     (case as_array notes of
        Inl e \<Rightarrow> Inl e
      | Inr ns \<Rightarrow>
     (case collect (map renderNote ns) of
        Inl e \<Rightarrow> Inl e
      | Inr items \<Rightarrow> Inr (concat
          [''\<newline>'',
           ''        <a href="/notes/new">Add Note</a>\<newline>'',
           ''        <div>\<newline>'',
           ''            '',
           concat items,
           ''\<newline>'',
           ''        </div>\<newline>'',
           ''    ''])))\<close>

definition renderNoteDetail :: "jsval \<Rightarrow> error + string" where
  \<open>renderNoteDetail note =
     (case get_prop note ''title'' of
        Inl e \<Rightarrow> Inl e
      | Inr title \<Rightarrow>
     (case to_string title of
        Inl e \<Rightarrow> Inl e
      | Inr t \<Rightarrow>
     (case get_prop note ''content'' of
        Inl e \<Rightarrow> Inl e
      | Inr content \<Rightarrow>
     (case to_string content of
        Inl e \<Rightarrow> Inl e
      | Inr c \<Rightarrow>
     (case get_prop note ''id'' of
        Inl e \<Rightarrow> Inl e
      | Inr nid \<Rightarrow>
     (case to_string nid of
        Inl e \<Rightarrow> Inl e
      | Inr i \<Rightarrow> Inr (concat
          [''\<newline>'',
           ''        <a href="/">Back to Notes</a>\<newline>'',
           ''        <div class="note">\<newline>'',
           ''            <h2>'',
           t,
           ''</h2>\<newline>'',
           ''            <p>'',
           c,
           ''</p>\<newline>'',
           ''            <a href="/notes/'',
           i,
           ''/edit">Edit</a>\<newline>'',
           ''        </div>\<newline>'',
           ''    ''])))))))\<close>

definition or_empty :: "jsval \<Rightarrow> error + string" where
  "or_empty v = (if truthy v then to_string v else Inr [])"

definition renderNoteForm :: "jsval \<Rightarrow> error + string" where
  \<open>renderNoteForm note =
     (case get_prop note ''id'' of
        Inl e \<Rightarrow> Inl e
      | Inr nid \<Rightarrow>
     (let isEdit = truthy nid in
     (case (if isEdit
            then (case to_string nid of Inl e \<Rightarrow> Inl e | Inr i \<Rightarrow> Inr (''/notes/'' @ i @ ''/edit''))
            else Inr ''/notes/new'') of
        Inl e \<Rightarrow> Inl e
      | Inr action \<Rightarrow>
     (case get_prop note ''title'' of
        Inl e \<Rightarrow> Inl e
      | Inr title \<Rightarrow>
     (case or_empty title of
        Inl e \<Rightarrow> Inl e
      | Inr t \<Rightarrow>
     (case get_prop note ''content'' of
        Inl e \<Rightarrow> Inl e
      | Inr content \<Rightarrow>
     (case or_empty content of
        Inl e \<Rightarrow> Inl e
      | Inr c \<Rightarrow> Inr (concat
          [''\<newline>'',
           ''        <a href="/">Back to Notes</a>\<newline>'',
           ''        <form method="POST" action="'',
           action,
           ''">\<newline>'',
           ''            <div>\<newline>'',
           ''                <label>Title:</label><br>\<newline>'',
           ''                <input name="title" value="'',
           t,
           ''" required>\<newline>'',
           ''            </div>\<newline>'',
           ''            <div>\<newline>'',
           ''                <label>Content:</label><br>\<newline>'',
           ''                <textarea name="content" required>'',
           c,
           ''</textarea>\<newline>'',
           ''            </div>\<newline>'',
           ''            <button type="submit">'',
           (if isEdit then ''Update'' else ''Create''),
           '' Note</button>\<newline>'',
           ''        </form>\<newline>'',
           ''    '']))))))))\<close>

subsection \<open>Requests and responses\<close>

text \<open>
  A request is its method, the path of its URL, the text of its body (which the JSON
  routes parse) and the decoded pairs of that body read as a form.  \<open>parseBody\<close>
  (lines 92-99) collects the pairs as \<^verbatim>\<open>querystring.parse\<close> does: a name that occurs
  once has a string, a name that occurs again has the array of its values.

  An \<open>outcome\<close> is the response that was sent, or the exception that ended the handler
  before a response was complete (the source catches none).
\<close>

record request =
  meth :: string
  pathname :: string
  body :: string
  form_fields :: "(string \<times> string) list"

record response =
  status :: nat
  headers :: "(string \<times> string) list"
  rbody :: string

datatype outcome = Reply response | Fault error

definition append_value :: "jsval \<Rightarrow> string \<Rightarrow> jsval" where
  "append_value x v = (case x of JArr xs \<Rightarrow> JArr (xs @ [JStr v]) | _ \<Rightarrow> JArr [x, JStr v])"

fun add_field :: "(string \<times> jsval) list \<Rightarrow> string \<Rightarrow> string \<Rightarrow> (string \<times> jsval) list" where
  "add_field [] k v = [(k, JStr v)]"
| "add_field ((k', x) # kvs) k v =
     (if k' = k then (k, append_value x v) # kvs else (k', x) # add_field kvs k v)"

definition parseBody :: "request \<Rightarrow> jsval" where
  "parseBody req = JObj (fold (\<lambda>(k, v) kvs. add_field kvs k v) (form_fields req) [])"

definition json_reply :: "nat \<Rightarrow> jsval \<Rightarrow> response" where
  "json_reply st v =
     \<lparr>status = st, headers = [(''Content-Type'', ''application/json'')],
      rbody = (case JSON_stringify 0 v of None \<Rightarrow> [] | Some s \<Rightarrow> s)\<rparr>"

definition html_reply :: "nat \<Rightarrow> error + string \<Rightarrow> outcome" where
  "html_reply st page =
     (case page of
        Inl e \<Rightarrow> Fault e
      | Inr s \<Rightarrow> Reply \<lparr>status = st, headers = [(''Content-Type'', ''text/html'')], rbody = s\<rparr>)"

definition redirect :: "string \<Rightarrow> response" where
  "redirect loc = \<lparr>status = 302, headers = [(''Location'', loc)], rbody = []\<rparr>"

definition note_not_found_json :: response where
  "note_not_found_json = json_reply 404 (JObj [(''error'', JStr ''Note not found'')])"

definition note_not_found_html :: outcome where
  "note_not_found_html =
     html_reply 404 (renderLayout (JStr ''Not Found'') ''<div>Note not found</div>'')"

definition not_found_page :: outcome where
  "not_found_page =
     html_reply 404 (renderLayout (JStr ''Not Found'') ''<div>404 Not Found</div>'')"

subsection \<open>Looking a note up by id\<close>

text \<open>
  \<open>id_matches i\<close> is the predicate \<^verbatim>\<open>n => n.id === id\<close>: strict equality with a number
  holds for that number only.  \<open>find_note\<close> is \<^verbatim>\<open>notes.find\<close> and \<open>findIndex\<close> is
  \<^verbatim>\<open>notes.findIndex\<close>, with \<open>None\<close> for \<^verbatim>\<open>undefined\<close> and for \<^verbatim>\<open>-1\<close>.
\<close>

definition id_matches :: "int \<Rightarrow> jsval \<Rightarrow> error + bool" where
  "id_matches i n = (case get_prop n ''id'' of Inl e \<Rightarrow> Inl e | Inr v \<Rightarrow> Inr (v = JNum i))"

fun find_note :: "int \<Rightarrow> jsval list \<Rightarrow> error + jsval option" where
  "find_note i [] = Inr None"
| "find_note i (n # ns) =
     (case id_matches i n of
        Inl e \<Rightarrow> Inl e
      | Inr hit \<Rightarrow> if hit then Inr (Some n) else find_note i ns)"

fun findIndex :: "int \<Rightarrow> jsval list \<Rightarrow> error + nat option" where
  "findIndex i [] = Inr None"
| "findIndex i (n # ns) =
     (case id_matches i n of
        Inl e \<Rightarrow> Inl e
      | Inr hit \<Rightarrow>
          if hit then Inr (Some 0)
          else (case findIndex i ns of
                  Inl e \<Rightarrow> Inl e
                | Inr None \<Rightarrow> Inr None
                | Inr (Some k) \<Rightarrow> Inr (Some (Suc k))))"

subsection \<open>Route patterns\<close>

text \<open>
  \<open>api_id_path\<close> is the pattern \<^verbatim>\<open>^\/api\/notes\/\d+$\<close>, \<open>note_path\<close> is
  \<^verbatim>\<open>^\/notes\/\d+$\<close>, and \<open>note_sub_path suffix\<close> is \<^verbatim>\<open>^\/notes\/\d+\<close> followed by the
  suffix (\<^verbatim>\<open>/edit\<close> or \<^verbatim>\<open>/delete\<close>) and the end of the path.  \<open>path_id p i\<close> is
  \<^verbatim>\<open>Number(pathname.split('/')[i])\<close>; behind each pattern the segment exists and is a
  string of digits.
\<close>

definition starts_with :: "string \<Rightarrow> string \<Rightarrow> bool" where
  "starts_with pre s = (take (length pre) s = pre)"

definition digits1 :: "string \<Rightarrow> bool" where
  "digits1 s = (s \<noteq> [] \<and> list_all is_digit s)"

definition api_id_path :: "string \<Rightarrow> bool" where
  "api_id_path p = (starts_with ''/api/notes/'' p \<and> digits1 (drop 11 p))"

definition note_path :: "string \<Rightarrow> bool" where
  "note_path p = (starts_with ''/notes/'' p \<and> digits1 (drop 7 p))"

definition note_sub_path :: "string \<Rightarrow> string \<Rightarrow> bool" where
  "note_sub_path suffix p =
     (starts_with ''/notes/'' p \<and>
      takeWhile is_digit (drop 7 p) \<noteq> [] \<and> dropWhile is_digit (drop 7 p) = suffix)"

fun split_at :: "char \<Rightarrow> string \<Rightarrow> string list" where
  "split_at c [] = [[]]"
| "split_at c (x # xs) =
     (if x = c then [] # split_at c xs
      else (case split_at c xs of [] \<Rightarrow> [[x]] | w # ws \<Rightarrow> (x # w) # ws))"

definition path_id :: "string \<Rightarrow> nat \<Rightarrow> int" where
  "path_id p i =
     (let segs = split_at (CHR ''/'') p
      in int (dec_value (if i < length segs then segs ! i else [])))"

subsection \<open>The request handler (lines 102-257)\<close>

text \<open>
  \<open>attempt r f k\<close> continues with the value of \<open>r\<close>, or ends the request with the
  exception \<open>r\<close> threw and the file as it is.  One function per route follows, in the
  order of the source; \<open>now\<close> is the reading of \<^verbatim>\<open>Date.now()\<close>.  \<open>api_routes\<close> is the block
  guarded by the path prefix, which falls through to the web routes when none of its
  conditions holds.
\<close>

definition attempt ::
  "error + 'a \<Rightarrow> notes_file \<Rightarrow> ('a \<Rightarrow> outcome \<times> notes_file) \<Rightarrow> outcome \<times> notes_file" where
  "attempt r f k = (case r of Inl e \<Rightarrow> (Fault e, f) | Inr x \<Rightarrow> k x)"

definition new_note :: "int \<Rightarrow> jsval \<Rightarrow> error + jsval" where
  "new_note now data =
     (case get_prop data ''title'' of
        Inl e \<Rightarrow> Inl e
      | Inr title \<Rightarrow>
          (case get_prop data ''content'' of
             Inl e \<Rightarrow> Inl e
           | Inr content \<Rightarrow>
               Inr (JObj [(''id'', JNum now), (''title'', title), (''content'', content)])))"

definition api_list :: "notes_file \<Rightarrow> outcome \<times> notes_file" where
  "api_list f = attempt (readNotes f) f (\<lambda>notes. (Reply (json_reply 200 notes), f))"

definition api_get :: "int \<Rightarrow> notes_file \<Rightarrow> outcome \<times> notes_file" where
  "api_get i f =
     attempt (readNotes f) f (\<lambda>notes.
     attempt (as_array notes) f (\<lambda>ns.
     attempt (find_note i ns) f (\<lambda>found.
       case found of
         None \<Rightarrow> (Reply note_not_found_json, f)
       | Some note \<Rightarrow> (Reply (json_reply 200 note), f))))"

definition api_create :: "int \<Rightarrow> request \<Rightarrow> notes_file \<Rightarrow> outcome \<times> notes_file" where
  "api_create now req f =
     attempt (JSON_parse (body req)) f (\<lambda>data.
     attempt (readNotes f) f (\<lambda>notes.
     attempt (new_note now data) f (\<lambda>note.
     attempt (as_array notes) f (\<lambda>ns.
     attempt (writeNotes (JArr (ns @ [note]))) f (\<lambda>f'.
       (Reply (json_reply 201 note), f'))))))"

definition api_update :: "int \<Rightarrow> request \<Rightarrow> notes_file \<Rightarrow> outcome \<times> notes_file" where
  "api_update i req f =
     attempt (JSON_parse (body req)) f (\<lambda>data.
     attempt (readNotes f) f (\<lambda>notes.
     attempt (as_array notes) f (\<lambda>ns.
     attempt (findIndex i ns) f (\<lambda>idx.
       case idx of
         None \<Rightarrow> (Reply note_not_found_json, f)
       | Some k \<Rightarrow>
           attempt (writeNotes (JArr (ns[k := merge_note (ns ! k) data]))) f (\<lambda>f'.
             (Reply (json_reply 200 (merge_note (ns ! k) data)), f'))))))"

definition api_delete :: "int \<Rightarrow> notes_file \<Rightarrow> outcome \<times> notes_file" where
  "api_delete i f =
     attempt (readNotes f) f (\<lambda>notes.
     attempt (as_array notes) f (\<lambda>ns.
     attempt (findIndex i ns) f (\<lambda>idx.
       case idx of
         None \<Rightarrow> (Reply note_not_found_json, f)
       | Some k \<Rightarrow>
           attempt (writeNotes (JArr (take k ns @ drop (Suc k) ns))) f (\<lambda>f'.
             (Reply (json_reply 200 (ns ! k)), f')))))"

definition web_home :: "notes_file \<Rightarrow> outcome \<times> notes_file" where
  "web_home f =
     attempt (readNotes f) f (\<lambda>notes.
       (html_reply 200
          (case renderNotesList notes of
             Inl e \<Rightarrow> Inl e
           | Inr list \<Rightarrow> renderLayout (JStr ''Notes'') list), f))"

definition web_new_form :: "notes_file \<Rightarrow> outcome \<times> notes_file" where
  "web_new_form f =
     (html_reply 200
        (case renderNoteForm (JObj []) of
           Inl e \<Rightarrow> Inl e
         | Inr form \<Rightarrow> renderLayout (JStr ''New Note'') form), f)"

definition web_create :: "int \<Rightarrow> request \<Rightarrow> notes_file \<Rightarrow> outcome \<times> notes_file" where
  "web_create now req f =
     attempt (readNotes f) f (\<lambda>notes.
     attempt (new_note now (parseBody req)) f (\<lambda>note.
     attempt (as_array notes) f (\<lambda>ns.
     attempt (writeNotes (JArr (ns @ [note]))) f (\<lambda>f'.
       (Reply (redirect ''/''), f')))))"

definition web_view :: "int \<Rightarrow> notes_file \<Rightarrow> outcome \<times> notes_file" where
  "web_view i f =
     attempt (readNotes f) f (\<lambda>notes.
     attempt (as_array notes) f (\<lambda>ns.
     attempt (find_note i ns) f (\<lambda>found.
       case found of
         None \<Rightarrow> (note_not_found_html, f)
       | Some note \<Rightarrow>
           (html_reply 200
              (case get_prop note ''title'' of
                 Inl e \<Rightarrow> Inl e
               | Inr title \<Rightarrow>
                   (case renderNoteDetail note of
                      Inl e \<Rightarrow> Inl e
                    | Inr detail \<Rightarrow> renderLayout title detail)), f))))"

definition web_edit_form :: "int \<Rightarrow> notes_file \<Rightarrow> outcome \<times> notes_file" where
  "web_edit_form i f =
     attempt (readNotes f) f (\<lambda>notes.
     attempt (as_array notes) f (\<lambda>ns.
     attempt (find_note i ns) f (\<lambda>found.
       case found of
         None \<Rightarrow> (note_not_found_html, f)
       | Some note \<Rightarrow>
           (html_reply 200
              (case renderNoteForm note of
                 Inl e \<Rightarrow> Inl e
               | Inr form \<Rightarrow> renderLayout (JStr ''Edit Note'') form), f))))"

definition web_edit :: "int \<Rightarrow> request \<Rightarrow> notes_file \<Rightarrow> outcome \<times> notes_file" where
  "web_edit i req f =
     attempt (readNotes f) f (\<lambda>notes.
     attempt (as_array notes) f (\<lambda>ns.
     attempt (findIndex i ns) f (\<lambda>idx.
       case idx of
         None \<Rightarrow> (note_not_found_html, f)
       | Some k \<Rightarrow>
           attempt (writeNotes (JArr (ns[k := merge_note (ns ! k) (parseBody req)]))) f (\<lambda>f'.
             (Reply (redirect (''/notes/'' @ show_int i)), f')))))"

definition web_delete :: "int \<Rightarrow> notes_file \<Rightarrow> outcome \<times> notes_file" where
  "web_delete i f =
     attempt (readNotes f) f (\<lambda>notes.
     attempt (as_array notes) f (\<lambda>ns.
     attempt (findIndex i ns) f (\<lambda>idx.
       case idx of
         None \<Rightarrow> (note_not_found_html, f)
       | Some k \<Rightarrow>
           attempt (writeNotes (JArr (take k ns @ drop (Suc k) ns))) f (\<lambda>f'.
             (Reply (redirect ''/''), f')))))"

definition api_routes :: "int \<Rightarrow> request \<Rightarrow> notes_file \<Rightarrow> (outcome \<times> notes_file) option" where
  "api_routes now req f =
     (if meth req = ''GET'' \<and> pathname req = ''/api/notes'' then Some (api_list f)
      else if meth req = ''GET'' \<and> api_id_path (pathname req)
        then Some (api_get (path_id (pathname req) 3) f)
      else if meth req = ''POST'' \<and> pathname req = ''/api/notes'' then Some (api_create now req f)
      else if meth req = ''PUT'' \<and> api_id_path (pathname req)
        then Some (api_update (path_id (pathname req) 3) req f)
      else if meth req = ''DELETE'' \<and> api_id_path (pathname req)
        then Some (api_delete (path_id (pathname req) 3) f)
      else None)"

definition web_routes :: "int \<Rightarrow> request \<Rightarrow> notes_file \<Rightarrow> outcome \<times> notes_file" where
  "web_routes now req f =
     (if meth req = ''GET'' \<and> pathname req = ''/'' then web_home f
      else if meth req = ''GET'' \<and> pathname req = ''/notes/new'' then web_new_form f
      else if meth req = ''POST'' \<and> pathname req = ''/notes/new'' then web_create now req f
      else if meth req = ''GET'' \<and> note_path (pathname req)
        then web_view (path_id (pathname req) 2) f
      else if meth req = ''GET'' \<and> note_sub_path ''/edit'' (pathname req)
        then web_edit_form (path_id (pathname req) 2) f
      else if meth req = ''POST'' \<and> note_sub_path ''/edit'' (pathname req)
        then web_edit (path_id (pathname req) 2) req f
      else if meth req = ''POST'' \<and> note_sub_path ''/delete'' (pathname req)
        then web_delete (path_id (pathname req) 2) f
      else (not_found_page, f))"

definition server :: "int \<Rightarrow> request \<Rightarrow> notes_file \<Rightarrow> outcome \<times> notes_file" where
  "server now req f =
     (case (if starts_with ''/api/notes'' (pathname req) then api_routes now req f else None) of
        Some r \<Rightarrow> r
      | None \<Rightarrow> web_routes now req f)"

section \<open>Vocabulary of the statements\<close>

text \<open>
  \<open>json_of v\<close> is the value that the text of \<open>v\<close> denotes, and \<open>json_value v\<close> says that
  \<open>v\<close> is a value a text can denote: nothing in it is \<open>undefined\<close> and no object has a key
  twice.  \<open>keys_ok\<close> is the second half alone.
\<close>

fun json_of :: "jsval \<Rightarrow> jsval" where
  "json_of (JArr xs) = JArr (map (\<lambda>x. if x = JUndefined then JNull else json_of x) xs)"
| "json_of (JObj kvs) =
     JObj (map (\<lambda>(k, v). (k, json_of v)) (filter (\<lambda>(k, v). v \<noteq> JUndefined) kvs))"
| "json_of v = v"

fun json_value :: "jsval \<Rightarrow> bool" where
  "json_value JUndefined = False"
| "json_value (JArr xs) = list_all json_value xs"
| "json_value (JObj kvs) = (distinct (map fst kvs) \<and> list_all (\<lambda>p. json_value (snd p)) kvs)"
| "json_value v = True"

fun keys_ok :: "jsval \<Rightarrow> bool" where
  "keys_ok (JArr xs) = list_all keys_ok xs"
| "keys_ok (JObj kvs) = (distinct (map fst kvs) \<and> list_all (\<lambda>p. keys_ok (snd p)) kvs)"
| "keys_ok v = True"

text \<open>
  \<open>field v k\<close> is the own property \<open>k\<close> of \<open>v\<close> (\<open>undefined\<close> when there is none) and
  \<open>named v\<close> are the names of its own properties: the fields a body names.
\<close>

definition field :: "jsval \<Rightarrow> string \<Rightarrow> jsval" where
  "field v k = lookup (own_props v) k"


text \<open>
  The store: \<open>holds_notes f ns\<close> says that the file reads as the array \<open>ns\<close> of objects.
  \<open>has_id i n\<close> says that the note \<open>n\<close> answers to the id \<open>i\<close>, and \<open>first_index i ns\<close>
  is the position of the first note of \<open>ns\<close> that does.  \<open>unique_ids ns\<close> says that no two
  notes of \<open>ns\<close> have the same id (a note without the field has none).
\<close>

definition is_note :: "jsval \<Rightarrow> bool" where
  "is_note n = (case n of JObj kvs \<Rightarrow> True | _ \<Rightarrow> False)"

definition holds_notes :: "notes_file \<Rightarrow> jsval list \<Rightarrow> bool" where
  "holds_notes f ns = (readNotes f = Inr (JArr ns) \<and> list_all is_note ns)"

definition has_id :: "int \<Rightarrow> jsval \<Rightarrow> bool" where
  "has_id i n = (field n ''id'' = JNum i)"

fun first_index :: "int \<Rightarrow> jsval list \<Rightarrow> nat option" where
  "first_index i [] = None"
| "first_index i (n # ns) =
     (if has_id i n then Some 0 else map_option Suc (first_index i ns))"



text \<open>
  \<open>is_req m p req\<close>: the request \<open>req\<close> has the method \<open>m\<close> and the path \<open>p\<close>.
\<close>

definition is_req :: "string \<Rightarrow> string \<Rightarrow> request \<Rightarrow> bool" where
  "is_req m p req = (meth req = m \<and> pathname req = p)"

text \<open>
  A store of two notes and a request built from its parts, for the instances of the
  theorems.
\<close>

definition example_file :: notes_file where
  "example_file =
     Contents ''[{\"id\":5,\"title\":\"T\",\"content\":\"C\"},{\"id\":9,\"title\":\"U\"}]''"

definition example_notes :: "jsval list" where
  "example_notes =
     [JObj [(''id'', JNum 5), (''title'', JStr ''T''), (''content'', JStr ''C'')],
      JObj [(''id'', JNum 9), (''title'', JStr ''U'')]]"

definition mk_req :: "string \<Rightarrow> string \<Rightarrow> string \<Rightarrow> (string \<times> string) list \<Rightarrow> request" where
  "mk_req m p b fs = \<lparr>meth = m, pathname = p, body = b, form_fields = fs\<rparr>"

subsection \<open>Notions used in the proofs about JSON text\<close>

text \<open>
  \<open>toks v\<close> are the tokens of the text of \<open>v\<close>.  \<open>lexes s ts\<close>: the text \<open>s\<close>, before
  any text that does not go on with a digit, lexes to \<open>ts\<close>.  \<open>accepts v\<close>: where a value
  may start, the parser reads the tokens of \<open>v\<close> as \<open>v\<close>.  \<open>state_ok\<close> is the
  invariant of the parser.
\<close>

fun toks :: "jsval \<Rightarrow> token list" where
  "toks JUndefined = []"
| "toks JNull = [TNull]"
| "toks (JBool b) = [if b then TTrue else TFalse]"
| "toks (JNum n) = [TNum n]"
| "toks (JStr s) = [TStr s]"
| "toks (JArr xs) = TLBrack # join [TComma] (map toks xs) @ [TRBrack]"
| "toks (JObj kvs) =
     TLBrace # join [TComma] (map (\<lambda>(k, v). TStr k # TColon # toks v) kvs) @ [TRBrace]"

definition nd :: "string \<Rightarrow> bool" where
  "nd s = (s = [] \<or> \<not> is_digit (hd s))"

definition lexes :: "string \<Rightarrow> token list \<Rightarrow> bool" where
  "lexes s ts =
     (\<forall>rest. nd rest \<longrightarrow>
        lex (s @ rest) = (case lex rest of None \<Rightarrow> None | Some r \<Rightarrow> Some (ts @ r)))"

fun frame_ok :: "frame \<Rightarrow> bool" where
  "frame_ok (FArr acc) = list_all json_value acc"
| "frame_ok (FObj acc) = json_value (JObj acc)"
| "frame_ok (FMem acc k) = json_value (JObj acc)"

fun state_ok :: "mode \<times> frame list \<Rightarrow> bool" where
  "state_ok (MEnd v, st) = (json_value v \<and> list_all frame_ok st)"
| "state_ok (m, st) = list_all frame_ok st"

definition accepts :: "jsval \<Rightarrow> bool" where
  "accepts v =
     (\<forall>m st ts. m = MVal \<or> m = MFirst \<longrightarrow>
        run (toks v @ ts) (m, st) = (case deliver st v of None \<Rightarrow> None | Some s \<Rightarrow> run ts s))"

lemma digit_cases: "d < 10 \<Longrightarrow> d \<in> {0, 1, 2, 3, 4, 5, 6, 7, 8, 9::nat}"
  by auto

lemma is_digit_digit_char: "d < 10 \<Longrightarrow> is_digit (digit_char d)"
  by (drule digit_cases) (auto simp: is_digit_def digit_char_def)

lemma digit_val_digit_char: "d < 10 \<Longrightarrow> digit_val (digit_char d) = d"
  by (drule digit_cases) (auto simp: digit_val_def digit_char_def)

lemma digit_char_eq_0: "d < 10 \<Longrightarrow> digit_char d = CHR ''0'' \<longleftrightarrow> d = 0"
  by (drule digit_cases) (auto simp: digit_char_def)

lemma dec_digits: "list_all is_digit (dec n)"
  by (induction n rule: dec.induct) (subst dec.simps, simp add: is_digit_digit_char)

lemma dec_nonempty: "dec n \<noteq> []"
  by (subst dec.simps) simp

lemma dec_value_snoc: "dec_value (xs @ [c]) = 10 * dec_value xs + digit_val c"
  by (simp add: dec_value_def)

lemma dec_value_dec: "dec_value (dec n) = n"
proof (induction n rule: dec.induct)
  case (1 n)
  show ?case
  proof (cases "n < 10")
    case True
    then show ?thesis
      by (subst dec.simps) (simp add: dec_value_def digit_val_digit_char)
  next
    case False
    with 1 show ?thesis
      by (subst dec.simps) (simp add: dec_value_snoc digit_val_digit_char)
  qed
qed

lemma hd_dec: "hd (dec n) = CHR ''0'' \<Longrightarrow> n < 10"
proof (induction n rule: dec.induct)
  case (1 n)
  show ?case
  proof (cases "n < 10")
    case True then show ?thesis .
  next
    case False
    have "hd (dec n) = hd (dec (n div 10))"
      using False dec_nonempty [of "n div 10"] by (subst dec.simps) simp
    with 1 False have "n div 10 < 10" by simp
    moreover have "hd (dec (n div 10)) = CHR ''0''"
      using \<open>hd (dec n) = hd (dec (n div 10))\<close> 1(2) by simp
    ultimately have "n div 10 = 0"
      by (subst (asm) dec.simps) (simp add: digit_char_eq_0)
    with False show ?thesis by simp
  qed
qed

lemma dec_leading_zero: "hd (dec n) = CHR ''0'' \<Longrightarrow> length (dec n) = 1"
  by (frule hd_dec) (subst dec.simps, simp)

lemma takeWhile_digits:
  "list_all is_digit ds \<Longrightarrow> rest = [] \<or> \<not> is_digit (hd rest) \<Longrightarrow>
   takeWhile is_digit (ds @ rest) = ds \<and> dropWhile is_digit (ds @ rest) = rest"
  by (cases rest) (induction ds; simp)+

lemma not_digit_minus: "\<not> is_digit (CHR ''-'')"
  by (simp add: is_digit_def)

lemma hd_dec_not_minus: "hd (dec n) \<noteq> CHR ''-''"
  using dec_digits [of n] dec_nonempty [of n] not_digit_minus
  by (cases "dec n") auto

lemma lex_number_show_int:
  assumes "rest = [] \<or> \<not> is_digit (hd rest)"
  shows "lex_number (show_int i @ rest) = Some (i, rest)"
proof (cases "i < 0")
  case True
  then show ?thesis
    using takeWhile_digits [OF dec_digits assms, of "nat (- i)"]
      dec_nonempty [of "nat (- i)"] dec_leading_zero [of "nat (- i)"]
    by (auto simp: lex_number_def show_int_def Let_def dec_value_dec)
next
  case False
  then show ?thesis
    using takeWhile_digits [OF dec_digits assms, of "nat i"]
      dec_nonempty [of "nat i"] dec_leading_zero [of "nat i"] hd_dec_not_minus [of "nat i"]
    by (auto simp: lex_number_def show_int_def Let_def dec_value_dec)
qed

lemma hex_cases: "d < 16 \<Longrightarrow> d \<in> {0, 1, 2, 3, 4, 5, 6, 7, 8, 9, 10, 11, 12, 13, 14, 15::nat}"
  by simp arith

lemma hex_val_hex_char: "d < 16 \<Longrightarrow> hex_val (hex_char d) = Some d"
  by (drule hex_cases) (elim insertE emptyE; simp add: hex_val_def hex_char_def is_digit_def digit_val_def)

lemma unicode_escape_hex:
  assumes "of_char c < (32::nat)"
  shows "unicode_escape (CHR ''0'') (CHR ''0'')
           (hex_char (of_char c div 16)) (hex_char (of_char c mod 16)) = Some c"
proof -
  have z: "hex_val (CHR ''0'') = Some 0"
    by (simp add: hex_val_def is_digit_def digit_val_def)
  have a: "hex_val (hex_char (of_char c div 16)) = Some (of_char c div 16)"
    using assms by (intro hex_val_hex_char) simp
  have b: "hex_val (hex_char (of_char c mod 16)) = Some (of_char c mod 16)"
    by (intro hex_val_hex_char) simp
  show ?thesis
    by (simp add: unicode_escape_def z a b)
qed

lemma lex_string_escape:
  "lex_string (escape_char c @ t) =
     (case lex_string t of None \<Rightarrow> None | Some (s, r) \<Rightarrow> Some (c # s, r))"
proof -
  consider (short) "c \<in> {CHR 0x22, CHR 0x5C, CHR 0x08, CHR 0x0C, CHR 0x0A, CHR 0x0D, CHR 0x09}"
    | (ctl) "c \<notin> {CHR 0x22, CHR 0x5C, CHR 0x08, CHR 0x0C, CHR 0x0A, CHR 0x0D, CHR 0x09}"
        "of_char c < (32::nat)"
    | (plain) "c \<notin> {CHR 0x22, CHR 0x5C, CHR 0x08, CHR 0x0C, CHR 0x0A, CHR 0x0D, CHR 0x09}"
        "\<not> of_char c < (32::nat)"
    by blast
  then show ?thesis
  proof cases
    case short
    then show ?thesis
      by (elim insertE emptyE; hypsubst; simp add: escape_char_def unescape_def)
  next
    case ctl
    then show ?thesis
      by (simp add: escape_char_def unicode_escape_hex)
  next
    case plain
    then show ?thesis
      by (simp add: escape_char_def)
  qed
qed

lemma lex_string_escaped:
  "lex_string (concat (map escape_char s) @ CHR 0x22 # rest) = Some (s, rest)"
  by (induction s) (simp_all add: lex_string_escape)

lemma lex_string_quote: "lex_string (tl (quote s) @ rest) = Some (s, rest)"
  using lex_string_escaped [of s rest] by (simp add: quote_def)

lemma lex_Nil: "lex [] = Some []"
  by (subst lex.simps) simp

lemma lex_ws: "is_ws c \<Longrightarrow> lex (c # cs) = lex cs"
  by (subst lex.simps) simp

lemma lex_spaces: "list_all is_ws w \<Longrightarrow> lex (w @ s) = lex s"
  by (induction w) (simp_all add: lex_ws)

lemma lex_tok:
  "lex_token (c # cs) = Some (t, r) \<Longrightarrow> \<not> is_ws c \<Longrightarrow>
   lex (c # cs) = (case lex r of None \<Rightarrow> None | Some ts \<Rightarrow> Some (t # ts))"
  by (subst lex.simps) simp

lemma lex_punct:
  "punct c = Some t \<Longrightarrow>
   lex (c # cs) = (case lex cs of None \<Rightarrow> None | Some ts \<Rightarrow> Some (t # ts))"
  by (rule lex_tok) (auto simp: lex_token_def punct_def is_ws_def split: if_splits)

lemma lexes_Nil: "lexes [] []"
  by (simp add: lexes_def split: option.split)

lemma lexes_quote: "lexes (quote s) [TStr s]"
proof -
  have "lex (quote s @ rest) = (case lex rest of None \<Rightarrow> None | Some r \<Rightarrow> Some ([TStr s] @ r))"
    for rest
  proof -
    have q: "quote s @ rest = CHR 0x22 # (tl (quote s) @ rest)"
      by (simp add: quote_def)
    have "lex_token (CHR 0x22 # (tl (quote s) @ rest)) = Some (TStr s, rest)"
      by (simp add: lex_token_def punct_def lex_string_quote)
    then have "lex (CHR 0x22 # (tl (quote s) @ rest)) =
        (case lex rest of None \<Rightarrow> None | Some ts \<Rightarrow> Some (TStr s # ts))"
      by (rule lex_tok) (simp add: is_ws_def)
    then show ?thesis
      unfolding q by (auto split: option.split)
  qed
  then show ?thesis by (simp add: lexes_def)
qed

lemma show_int_head:
  "\<exists>c cs. show_int i = c # cs \<and> (c = CHR ''-'' \<or> is_digit c)"
proof (cases "i < 0")
  case True
  then show ?thesis by (simp add: show_int_def)
next
  case False
  then show ?thesis
    using dec_nonempty [of "nat i"] dec_digits [of "nat i"]
    by (cases "dec (nat i)") (auto simp: show_int_def)
qed

lemma lexes_show_int: "lexes (show_int i) [TNum i]"
proof -
  have "lex (show_int i @ rest) = (case lex rest of None \<Rightarrow> None | Some r \<Rightarrow> Some ([TNum i] @ r))"
    if "nd rest" for rest
  proof -
    obtain c cs where s: "show_int i = c # cs" and c: "c = CHR ''-'' \<or> is_digit c"
      using show_int_head by blast
    have p: "punct c = None" and w: "\<not> is_ws c"
      using c by (auto simp: punct_def is_ws_def is_digit_def)
    have "lex_number ((c # cs) @ rest) = Some (i, rest)"
      using lex_number_show_int [of rest i] that by (simp add: nd_def flip: s)
    then have "lex_token (c # (cs @ rest)) = Some (TNum i, rest)"
      using c p by (auto simp: lex_token_def is_digit_def)
    then show ?thesis
      unfolding s using w by (simp add: lex_tok split: option.split)
  qed
  then show ?thesis by (simp add: lexes_def)
qed

lemma lexes_word:
  "lexes ''null'' [TNull]" "lexes ''true'' [TTrue]" "lexes ''false'' [TFalse]"
  by (simp_all add: lexes_def lex_tok lex_token_def punct_def lex_word_def is_ws_def is_digit_def
        split: option.split)

lemma ws_not_digit: "is_ws c \<Longrightarrow> \<not> is_digit c"
  by (auto simp: is_ws_def is_digit_def)

lemma punct_not_digit: "punct c = Some t \<Longrightarrow> \<not> is_digit c"
  by (auto simp: punct_def is_digit_def split: if_splits)

lemma nd_spaces: "list_all is_ws w \<Longrightarrow> nd s \<Longrightarrow> nd (w @ s)"
  by (cases w) (auto simp: nd_def ws_not_digit)

lemma nd_punct: "punct c = Some t \<Longrightarrow> nd (c # s)"
  by (simp add: nd_def punct_not_digit)

lemma lexesD:
  "lexes s ts \<Longrightarrow> nd rest \<Longrightarrow>
   lex (s @ rest) = (case lex rest of None \<Rightarrow> None | Some r \<Rightarrow> Some (ts @ r))"
  by (simp add: lexes_def)

lemma punct_simps:
  "punct (CHR '','') = Some TComma" "punct (CHR '':'') = Some TColon"
  "punct (CHR ''['') = Some TLBrack" "punct (CHR '']'') = Some TRBrack"
  "punct (CHR ''{'') = Some TLBrace" "punct (CHR ''}'') = Some TRBrace"
  by (simp_all add: punct_def)

lemma lexes_join:
  assumes "\<forall>x\<in>set xs. lexes (txt x) (tk x)" and "list_all is_ws pre"
  shows "lexes (join (CHR '','' # pre) (map txt xs)) (join [TComma] (map tk xs))"
  using assms(1)
proof (induction xs rule: induct_list012)
  case 1
  then show ?case by (simp add: lexes_Nil)
next
  case (2 x)
  then show ?case by simp
next
  case (3 x y zs)
  let ?tail = "join (CHR '','' # pre) (map txt (y # zs))"
  have tail: "lexes ?tail (join [TComma] (map tk (y # zs)))"
    using 3 by simp
  have x: "lexes (txt x) (tk x)"
    using 3 by simp
  show ?case
    unfolding lexes_def
  proof (intro allI impI)
    fix rest assume r: "nd rest"
    have "lex (txt x @ CHR '','' # pre @ ?tail @ rest) =
          (case lex (CHR '','' # pre @ ?tail @ rest) of None \<Rightarrow> None
           | Some r \<Rightarrow> Some (tk x @ r))"
      using lexesD [OF x, of "CHR '','' # pre @ ?tail @ rest"]
      by (simp add: nd_punct punct_simps)
    also have "lex (CHR '','' # pre @ ?tail @ rest) =
          (case lex (?tail @ rest) of None \<Rightarrow> None | Some r \<Rightarrow> Some (TComma # r))"
      by (simp add: lex_punct punct_simps lex_spaces assms(2))
    also have "lex (?tail @ rest) =
          (case lex rest of None \<Rightarrow> None
           | Some r \<Rightarrow> Some (join [TComma] (map tk (y # zs)) @ r))"
      using lexesD [OF tail r] .
    finally show "lex (join (CHR '','' # pre) (map txt (x # y # zs)) @ rest) =
          (case lex rest of None \<Rightarrow> None
           | Some r \<Rightarrow> Some (join [TComma] (map tk (x # y # zs)) @ r))"
      by (simp split: option.split)
  qed
qed

lemma ws_replicate: "list_all is_ws (replicate g (CHR '' ''))"
  by (induction g) (simp_all add: is_ws_def)

lemma lexes_wrap:
  assumes items: "\<forall>x\<in>set xs. lexes (txt x) (tk x)"
    and ind: "list_all is_ws ind"
    and l: "punct l = Some lt" and r: "punct r = Some rt"
  shows "lexes (wrap g ind [l] [r] (map txt xs)) (lt # join [TComma] (map tk xs) @ [rt])"
proof (cases "xs = []")
  case True
  then show ?thesis
    by (simp add: wrap_def lexes_def lex_punct l r split: option.split)
next
  case False
  define pre where "pre = (if g = 0 then [] else CHR 0x0A # ind @ replicate g (CHR '' ''))"
  define post where "post = (if g = 0 then [] else CHR 0x0A # ind)"
  have pre: "list_all is_ws pre" and post: "list_all is_ws post"
    using ind by (simp_all add: pre_def post_def ws_replicate) (simp_all add: is_ws_def)
  have w: "wrap g ind [l] [r] (map txt xs) =
           l # pre @ join (CHR '','' # pre) (map txt xs) @ post @ [r]"
    using False by (simp add: wrap_def pre_def post_def Let_def)
  have j: "lexes (join (CHR '','' # pre) (map txt xs)) (join [TComma] (map tk xs))"
    using lexes_join [OF items pre] .
  show ?thesis
    unfolding lexes_def w
  proof (intro allI impI)
    fix rest assume "nd rest"
    have "lex (join (CHR '','' # pre) (map txt xs) @ post @ r # rest) =
          (case lex (post @ r # rest) of None \<Rightarrow> None
           | Some q \<Rightarrow> Some (join [TComma] (map tk xs) @ q))"
      by (rule lexesD [OF j]) (simp add: nd_spaces post nd_punct [OF r])
    then show "lex ((l # pre @ join (CHR '','' # pre) (map txt xs) @ post @ [r]) @ rest) =
          (case lex rest of None \<Rightarrow> None
           | Some q \<Rightarrow> Some ((lt # join [TComma] (map tk xs) @ [rt]) @ q))"
      by (simp add: lex_punct [OF l] lex_punct [OF r] lex_spaces pre post split: option.split)
  qed
qed

lemma lexes_member:
  assumes "lexes s ts" and "list_all is_ws sp"
  shows "lexes (quote k @ CHR '':'' # sp @ s) (TStr k # TColon # ts)"
  unfolding lexes_def
proof (intro allI impI)
  fix rest assume r: "nd rest"
  have "lex (quote k @ CHR '':'' # sp @ s @ rest) =
        (case lex (CHR '':'' # sp @ s @ rest) of None \<Rightarrow> None
         | Some q \<Rightarrow> Some ([TStr k] @ q))"
    by (rule lexesD [OF lexes_quote]) (simp add: nd_punct punct_simps)
  moreover have "lex (CHR '':'' # sp @ s @ rest) =
        (case lex rest of None \<Rightarrow> None | Some q \<Rightarrow> Some (TColon # ts @ q))"
    using lexesD [OF assms(1) r]
    by (simp add: lex_punct punct_simps lex_spaces assms(2) split: option.split)
  ultimately show "lex ((quote k @ CHR '':'' # sp @ s) @ rest) =
        (case lex rest of None \<Rightarrow> None | Some q \<Rightarrow> Some ((TStr k # TColon # ts) @ q))"
    by (simp split: option.split)
qed

lemma ser_None: "ser g ind v = None \<longleftrightarrow> v = JUndefined"
  by (cases v) simp_all

lemma lexes_ser:
  "list_all is_ws ind \<Longrightarrow> v \<noteq> JUndefined \<Longrightarrow> lexes (the (ser g ind v)) (toks (json_of v))"
proof (induction v arbitrary: ind)
  case (JArr xs)
  let ?step = "ind @ replicate g (CHR '' '')"
  let ?txt = "\<lambda>x. case ser g ?step x of None \<Rightarrow> ''null'' | Some s \<Rightarrow> s"
  let ?tk = "\<lambda>x. toks (if x = JUndefined then JNull else json_of x)"
  have step: "list_all is_ws ?step"
    using JArr.prems by (simp add: ws_replicate)
  have "lexes (?txt x) (?tk x)" if "x \<in> set xs" for x
  proof (cases "x = JUndefined")
    case True
    then show ?thesis by (simp add: lexes_word)
  next
    case False
    then obtain s where s: "ser g ?step x = Some s"
      using ser_None [of g ?step x] by auto
    show ?thesis
      using JArr.IH [OF that step False] False by (simp add: s)
  qed
  then have "lexes (wrap g ind ''['' '']'' (map ?txt xs))
               (TLBrack # join [TComma] (map ?tk xs) @ [TRBrack])"
    by (intro lexes_wrap) (simp_all add: JArr.prems punct_simps)
  then show ?case
    by (simp add: comp_def)
next
  case (JObj kvs)
  let ?step = "ind @ replicate g (CHR '' '')"
  let ?sp = "if g = 0 then [] else '' ''"
  let ?live = "filter (\<lambda>(k, v). v \<noteq> JUndefined) kvs"
  let ?txt = "\<lambda>(k, v). quote k @ CHR '':'' # ?sp @ the (ser g ?step v)"
  let ?tk = "\<lambda>(k, v). TStr k # TColon # toks (json_of v)"
  have step: "list_all is_ws ?step"
    using JObj.prems by (simp add: ws_replicate)
  have items: "concat (map (\<lambda>(k, v). case ser g ?step v of None \<Rightarrow> []
                 | Some s \<Rightarrow> [quote k @ (if g = 0 then '':'' else '': '') @ s]) kvs)
               = map ?txt ?live"
    by (induction kvs) (auto simp: ser_None split: option.split)
  have "lexes (?txt p) (?tk p)" if "p \<in> set ?live" for p
  proof -
    obtain k v where p: "p = (k, v)" by (cases p)
    have "v \<noteq> JUndefined" and "(k, v) \<in> set kvs"
      using that by (auto simp: p)
    then have "lexes (the (ser g ?step v)) (toks (json_of v))"
      using JObj.IH [of "(k, v)" v ?step] step by simp
    then show ?thesis
      unfolding p by (simp add: lexes_member is_ws_def)
  qed
  then have "lexes (wrap g ind ''{'' ''}'' (map ?txt ?live))
               (TLBrace # join [TComma] (map ?tk ?live) @ [TRBrace])"
    by (intro lexes_wrap) (simp_all add: JObj.prems punct_simps)
  moreover have "ser g ind (JObj kvs) = Some (wrap g ind ''{'' ''}'' (map ?txt ?live))"
    by (simp only: ser.simps items)
  moreover have "toks (json_of (JObj kvs)) = TLBrace # join [TComma] (map ?tk ?live) @ [TRBrace]"
    by (simp add: comp_def case_prod_unfold)
  ultimately show ?case
    by (simp only: option.sel)
qed (simp_all add: lexes_word lexes_show_int lexes_quote)

lemma run_append:
  "run (a @ b) s = (case run a s of None \<Rightarrow> None | Some s' \<Rightarrow> run b s')"
  by (induction a arbitrary: s) (simp_all split: option.split)

lemma acceptsD:
  "accepts v \<Longrightarrow> m = MVal \<or> m = MFirst \<Longrightarrow>
   run (toks v @ ts) (m, st) = (case deliver st v of None \<Rightarrow> None | Some s \<Rightarrow> run ts s)"
  unfolding accepts_def by blast

lemma set_prop_fresh: "k \<notin> fst ` set kvs \<Longrightarrow> set_prop kvs k v = kvs @ [(k, v)]"
  by (induction kvs) auto

lemma run_elems:
  assumes "\<forall>x\<in>set xs. accepts x" and "xs \<noteq> []" and "m = MVal \<or> m = MFirst"
  shows "run (join [TComma] (map toks xs) @ ts) (m, FArr acc # st)
         = run ts (MSep, FArr (acc @ xs) # st)"
  using assms
proof (induction xs arbitrary: acc m rule: induct_list012)
  case 1
  then show ?case by simp
next
  case (2 x)
  then show ?case by (simp add: acceptsD)
next
  case (3 x y zs)
  have "run (toks x @ TComma # join [TComma] (map toks (y # zs)) @ ts) (m, FArr acc # st)
        = run (TComma # join [TComma] (map toks (y # zs)) @ ts) (MSep, FArr (acc @ [x]) # st)"
    using 3(3,5) by (simp add: acceptsD)
  also have "\<dots> = run (join [TComma] (map toks (y # zs)) @ ts) (MVal, FArr (acc @ [x]) # st)"
    by simp
  also have "\<dots> = run ts (MSep, FArr ((acc @ [x]) @ y # zs) # st)"
    using 3(3) by (intro 3(2)) simp_all
  finally show ?case by simp
qed

lemma run_members:
  assumes "\<forall>p\<in>set kvs. accepts (snd p)" and "kvs \<noteq> []"
    and "distinct (map fst (acc @ kvs))" and "m = MKey0 \<or> m = MKey"
  shows "run (join [TComma] (map (\<lambda>(k, v). TStr k # TColon # toks v) kvs) @ ts)
           (m, FObj acc # st)
         = run ts (MSep, FObj (acc @ kvs) # st)"
  using assms
proof (induction kvs arbitrary: acc m rule: induct_list012)
  case 1
  then show ?case by simp
next
  case (2 p)
  obtain k v where p: "p = (k, v)" by (cases p)
  have "k \<notin> fst ` set acc" using 2 by (auto simp: p)
  then show ?case
    using 2 by (auto simp: p acceptsD set_prop_fresh)
next
  case (3 p q zs)
  obtain k v where p: "p = (k, v)" by (cases p)
  have k: "k \<notin> fst ` set acc" using 3(5) by (auto simp: p)
  let ?rest = "join [TComma] (map (\<lambda>(k, v). TStr k # TColon # toks v) (q # zs)) @ ts"
  have "run (TStr k # TColon # toks v @ TComma # ?rest) (m, FObj acc # st)
        = run (toks v @ TComma # ?rest) (MVal, FMem acc k # st)"
    using 3(6) by auto
  also have "\<dots> = run (TComma # ?rest) (MSep, FObj (acc @ [(k, v)]) # st)"
    using 3(3) by (simp add: p acceptsD set_prop_fresh [OF k])
  also have "\<dots> = run ?rest (MKey, FObj (acc @ [(k, v)]) # st)"
    by simp
  also have "\<dots> = run ts (MSep, FObj ((acc @ [(k, v)]) @ q # zs) # st)"
    using 3(3,5) by (intro 3(2)) (simp_all add: p)
  finally show ?case by (simp add: p)
qed

lemma accepts_json: "json_value v \<Longrightarrow> accepts v"
proof (induction v)
  case (JArr xs)
  then have el: "\<forall>x\<in>set xs. accepts x"
    by (simp add: list_all_iff)
  show ?case
    unfolding accepts_def
  proof (intro allI impI)
    fix m st ts assume m: "m = MVal \<or> m = MFirst"
    show "run (toks (JArr xs) @ ts) (m, st)
          = (case deliver st (JArr xs) of None \<Rightarrow> None | Some s \<Rightarrow> run ts s)"
    proof (cases "xs = []")
      case True
      then show ?thesis using m by auto
    next
      case False
      have "run (toks (JArr xs) @ ts) (m, st)
            = run (join [TComma] (map toks xs) @ TRBrack # ts) (MFirst, FArr [] # st)"
        using m by auto
      also have "\<dots> = run (TRBrack # ts) (MSep, FArr ([] @ xs) # st)"
        using run_elems [OF el False, of MFirst "TRBrack # ts" "[]" st] by simp
      finally show ?thesis by simp
    qed
  qed
next
  case (JObj kvs)
  then have el: "\<forall>p\<in>set kvs. accepts (snd p)"
    by (auto simp: list_all_iff)
  have d: "distinct (map fst ([] @ kvs))"
    using JObj.prems by simp
  show ?case
    unfolding accepts_def
  proof (intro allI impI)
    fix m st ts assume m: "m = MVal \<or> m = MFirst"
    show "run (toks (JObj kvs) @ ts) (m, st)
          = (case deliver st (JObj kvs) of None \<Rightarrow> None | Some s \<Rightarrow> run ts s)"
    proof (cases "kvs = []")
      case True
      then show ?thesis using m by auto
    next
      case False
      have "run (toks (JObj kvs) @ ts) (m, st)
            = run (join [TComma] (map (\<lambda>(k, v). TStr k # TColon # toks v) kvs) @ TRBrace # ts)
                (MKey0, FObj [] # st)"
        using m by auto
      also have "\<dots> = run (TRBrace # ts) (MSep, FObj ([] @ kvs) # st)"
        using run_members [OF el False d, of MKey0 "TRBrace # ts" st] by simp
      finally show ?thesis by simp
    qed
  qed
qed (auto simp: accepts_def)

lemma json_of_id: "json_value v \<Longrightarrow> json_of v = v"
proof (induction v)
  case (JArr xs)
  then have "map (\<lambda>x. if x = JUndefined then JNull else json_of x) xs = map (\<lambda>x. x) xs"
    by (intro map_cong) (auto simp: list_all_iff)
  then show ?case by simp
next
  case (JObj kvs)
  then have v: "\<forall>p\<in>set kvs. snd p \<noteq> JUndefined \<and> json_of (snd p) = snd p"
    by (auto simp: list_all_iff)
  then have "filter (\<lambda>(k, v). v \<noteq> JUndefined) kvs = kvs"
    by (intro filter_True) auto
  moreover have "map (\<lambda>(k, v). (k, json_of v)) kvs = map (\<lambda>p. p) kvs"
    using v by (intro map_cong) auto
  ultimately show ?case by simp
qed simp_all

lemma json_value_keys_ok: "json_value v \<Longrightarrow> keys_ok v"
  by (induction v) (auto simp: list_all_iff)

lemma json_value_json_of: "keys_ok v \<Longrightarrow> v \<noteq> JUndefined \<Longrightarrow> json_value (json_of v)"
proof (induction v)
  case (JArr xs)
  then show ?case by (auto simp: list_all_iff)
next
  case (JObj kvs)
  let ?live = "filter (\<lambda>(k, v). v \<noteq> JUndefined) kvs"
  have "map fst (map (\<lambda>(k, v). (k, json_of v)) ?live) = map fst ?live"
    by (simp add: comp_def case_prod_unfold)
  moreover have "distinct (map fst ?live)"
    using JObj.prems by (simp add: distinct_map_filter)
  ultimately have d: "distinct (map fst (map (\<lambda>(k, v). (k, json_of v)) ?live))"
    by (simp only:)
  have "json_value (json_of (snd p))" if "p \<in> set ?live" for p
  proof -
    obtain k v where p: "p = (k, v)" by (cases p)
    have kv: "(k, v) \<in> set kvs" "v \<noteq> JUndefined"
      using that by (auto simp: p)
    moreover have "keys_ok v"
      using JObj.prems(1) kv(1) by (auto simp: list_all_iff)
    ultimately show ?thesis
      using JObj.IH [of "(k, v)" v] by (simp add: p)
  qed
  then have "list_all (\<lambda>p. json_value (snd p)) (map (\<lambda>(k, v). (k, json_of v)) ?live)"
    by (auto simp: list_all_iff)
  with d show ?case
    by (simp del: map_map)
qed simp_all

lemma set_prop_keys: "fst ` set (set_prop kvs k v) = insert k (fst ` set kvs)"
  by (induction kvs) (force split: if_splits)+

lemma set_prop_distinct: "distinct (map fst kvs) \<Longrightarrow> distinct (map fst (set_prop kvs k v))"
  by (induction kvs) (auto simp: set_prop_keys)

lemma set_prop_values: "set (set_prop kvs k v) \<subseteq> insert (k, v) (set kvs)"
  by (induction kvs) (auto split: if_splits)

lemma set_prop_json:
  "json_value (JObj kvs) \<Longrightarrow> json_value v \<Longrightarrow> json_value (JObj (set_prop kvs k v))"
  using set_prop_values [of kvs k v] by (auto simp: set_prop_distinct list_all_iff)

lemma deliver_ok:
  "deliver st v = Some s \<Longrightarrow> list_all frame_ok st \<Longrightarrow> json_value v \<Longrightarrow> state_ok s"
  by (induction st v rule: deliver.induct) (auto simp: set_prop_json simp del: json_value.simps(3))

lemma open_value_ok: "open_value st t = Some s \<Longrightarrow> list_all frame_ok st \<Longrightarrow> state_ok s"
  by (cases t) (auto dest: deliver_ok)

lemma key_tok_ok: "key_tok st t = Some s \<Longrightarrow> list_all frame_ok st \<Longrightarrow> state_ok s"
  by (induction st t rule: key_tok.induct) auto

lemma close_tok_ok: "close_tok st t = Some s \<Longrightarrow> list_all frame_ok st \<Longrightarrow> state_ok s"
  by (induction st t rule: close_tok.induct) (auto dest: deliver_ok simp del: json_value.simps(3))

lemma state_ok_frames: "state_ok (m, st) \<Longrightarrow> list_all frame_ok st"
  by (cases m) simp_all

lemma pstep_ok: "pstep s t = Some s' \<Longrightarrow> state_ok s \<Longrightarrow> state_ok s'"
proof -
  assume a: "pstep s t = Some s'" "state_ok s"
  obtain m st where s: "s = (m, st)" by (cases s)
  have fr: "list_all frame_ok st" using a(2) s state_ok_frames by blast
  show ?thesis
    using a(1) fr unfolding s
    by (cases m)
       (auto dest: open_value_ok key_tok_ok close_tok_ok split: if_splits list.splits frame.splits)
qed

lemma run_ok: "run ts s = Some s' \<Longrightarrow> state_ok s \<Longrightarrow> state_ok s'"
  by (induction ts arbitrary: s) (auto split: option.splits dest: pstep_ok)

lemma JSON_parse_json: "JSON_parse s = Inr v \<Longrightarrow> json_value v"
proof -
  assume "JSON_parse s = Inr v"
  then obtain ts st where "run ts (MVal, []) = Some (MEnd v, st)"
    by (auto simp: JSON_parse_def split: option.splits mode.splits prod.splits)
  from run_ok [OF this] show ?thesis by simp
qed

lemma JSON_roundtrip:
  assumes "keys_ok v" and "v \<noteq> JUndefined"
  shows "\<exists>s. JSON_stringify g v = Some s \<and> JSON_parse s = Inr (json_of v)"
proof -
  obtain s where s: "ser g [] v = Some s"
    using ser_None [of g "[]" v] assms(2) by auto
  have "lexes s (toks (json_of v))"
    using lexes_ser [of "[]" v g] assms(2) by (simp add: s)
  then have l: "lex s = Some (toks (json_of v))"
    using lexesD [of s _ "[]"] by (simp add: nd_def lex_Nil)
  have "accepts (json_of v)"
    using assms by (intro accepts_json json_value_json_of)
  then have "run (toks (json_of v)) (MVal, []) = Some (MEnd (json_of v), [])"
    using acceptsD [of "json_of v" MVal "[]" "[]"] by simp
  then show ?thesis
    by (simp add: JSON_stringify_def JSON_parse_def s l)
qed

section \<open>The file and the text it holds\<close>

lemma JSON_parse_error: "JSON_parse s = Inl e \<Longrightarrow> e = SyntaxError"
  by (auto simp: JSON_parse_def split: option.splits mode.splits prod.splits)

lemma readNotes_Contents: "readNotes (Contents s) = JSON_parse s"
proof (cases "JSON_parse s")
  case (Inl e)
  then show ?thesis
    using JSON_parse_error [OF Inl] by (simp add: readNotes_def readFile_def error_code_def)
next
  case (Inr v)
  then show ?thesis by (simp add: readNotes_def readFile_def)
qed

lemma readNotes_Unreadable:
  "readNotes (Unreadable c) = (if c = ''ENOENT'' then Inr (JArr []) else Inl (FsError c))"
  by (simp add: readNotes_def readFile_def error_code_def)

lemma readNotes_json: "readNotes f = Inr v \<Longrightarrow> json_value v"
proof (cases f)
  case (Unreadable c)
  assume "readNotes f = Inr v"
  then show ?thesis
    unfolding Unreadable readNotes_Unreadable by (auto split: if_splits)
next
  case (Contents s)
  assume "readNotes f = Inr v"
  then show ?thesis
    unfolding Contents readNotes_Contents by (rule JSON_parse_json)
qed

lemma write_read:
  assumes "keys_ok v" and "v \<noteq> JUndefined"
  shows "\<exists>f'. writeNotes v = Inr f' \<and> readNotes f' = Inr (json_of v)"
proof -
  obtain s where "JSON_stringify 2 v = Some s" and "JSON_parse s = Inr (json_of v)"
    using JSON_roundtrip [OF assms] by blast
  then show ?thesis
    by (simp add: writeNotes_def readNotes_Contents)
qed

lemma json_value_defined: "json_value v \<Longrightarrow> v \<noteq> JUndefined"
  by auto


lemma json_text:
  assumes "keys_ok v" and "v \<noteq> JUndefined"
  shows "JSON_parse (rbody (json_reply st v)) = Inr (json_of v)"
proof -
  obtain s where "JSON_stringify 0 v = Some s" and "JSON_parse s = Inr (json_of v)"
    using JSON_roundtrip [OF assms] by blast
  then show ?thesis
    by (simp add: json_reply_def)
qed

section \<open>Routing\<close>

lemma digit_not_slash: "is_digit c \<Longrightarrow> c \<noteq> CHR ''/''"
  by (auto simp: is_digit_def)

lemma digits1_no_slash: "digits1 ds \<Longrightarrow> CHR ''/'' \<notin> set ds"
  by (auto simp: digits1_def list_all_iff dest: digit_not_slash)

lemma split_at_plain: "c \<notin> set s \<Longrightarrow> split_at c s = [s]"
  by (induction s) auto


lemma split_at_nonempty: "split_at c s \<noteq> []"
  by (induction s) (auto split: list.split)

lemma api_path:
  assumes "p = ''/api/notes/'' @ s"
  shows "starts_with ''/api/notes'' p" and "p \<noteq> ''/api/notes''"
    and "api_id_path p = digits1 s"
    and "digits1 s \<Longrightarrow> path_id p 3 = int (dec_value s)"
    and "p \<noteq> ''/''" and "p \<noteq> ''/notes/new''"
    and "\<not> note_path p" and "\<not> note_sub_path suffix p"
  unfolding assms
  by (simp_all add: starts_with_def api_id_path_def note_path_def note_sub_path_def
        path_id_def split_at_plain digits1_no_slash)

lemma web_path:
  assumes "p = ''/notes/'' @ s"
  shows "\<not> starts_with ''/api/notes'' p" and "p \<noteq> ''/''"
    and "(p = ''/notes/new'') = (s = ''new'')"
    and "note_path p = digits1 s"
    and "note_sub_path suffix p
         = (takeWhile is_digit s \<noteq> [] \<and> dropWhile is_digit s = suffix)"
    and "path_id p 2 = int (dec_value (hd (split_at (CHR ''/'') s)))"
  unfolding assms
  using split_at_nonempty [of "CHR ''/''" s]
  by (simp_all add: starts_with_def note_path_def note_sub_path_def path_id_def hd_conv_nth
        split: list.split)


lemma digits_only:
  "list_all is_digit ds \<Longrightarrow> takeWhile is_digit ds = ds \<and> dropWhile is_digit ds = []"
  by (induction ds) auto

lemma not_digit_slash: "\<not> is_digit (CHR ''/'')"
  by (simp add: is_digit_def)


lemma note_sub_path_elim:
  assumes "takeWhile is_digit s \<noteq> []" and "dropWhile is_digit s = suffix"
  shows "\<exists>ds. digits1 ds \<and> s = ds @ suffix"
proof -
  have "s = takeWhile is_digit s @ suffix"
    using assms(2) takeWhile_dropWhile_id [of is_digit s] by simp
  moreover have "digits1 (takeWhile is_digit s)"
    using assms(1) by (auto simp: digits1_def list_all_iff dest: set_takeWhileD)
  ultimately show ?thesis by blast
qed

lemma route_api_get:
  assumes "digits1 ds" and "meth req = ''GET''" and p: "pathname req = ''/api/notes/'' @ ds"
  shows "server now req f = api_get (int (dec_value ds)) f"
  using assms(1,2) by (simp add: server_def api_routes_def api_path [OF p])




lemma route_api_create:
  "meth req = ''POST'' \<Longrightarrow> pathname req = ''/api/notes'' \<Longrightarrow>
   server now req f = api_create now req f"
  by (simp add: server_def api_routes_def starts_with_def)

lemma route_web_create:
  "meth req = ''POST'' \<Longrightarrow> pathname req = ''/notes/new'' \<Longrightarrow>
   server now req f = web_create now req f"
  by (simp add: server_def web_routes_def starts_with_def)




lemma not_found_page_reply:
  "\<exists>page. renderLayout (JStr ''Not Found'') ''<div>404 Not Found</div>'' = Inr page
          \<and> not_found_page
              = Reply \<lparr>status = 404, headers = [(''Content-Type'', ''text/html'')],
                       rbody = page\<rparr>"
  by (simp add: not_found_page_def html_reply_def renderLayout_def)

lemma no_sub_path:
  assumes "p = ''/notes/'' @ s" and "\<And>ds. digits1 ds \<Longrightarrow> s \<noteq> ds @ suffix"
  shows "\<not> note_sub_path suffix p"
  using note_sub_path_elim [of s suffix] assms(2) unfolding web_path(5) [OF assms(1)] by blast

lemma last_differs: "last s \<noteq> last t \<Longrightarrow> s \<noteq> [] \<Longrightarrow> t \<noteq> [] \<Longrightarrow> xs @ s \<noteq> ys @ t"
  by (metis last_appendR)

section \<open>Notes, lookups and merges\<close>

lemma field_obj [simp]: "field (JObj kvs) k = lookup kvs k"
  by (simp add: field_def own_props_def)

lemma is_note_obj: "is_note n \<Longrightarrow> \<exists>kvs. n = JObj kvs"
  by (cases n) (simp_all add: is_note_def)

lemma id_matches_note: "is_note n \<Longrightarrow> id_matches i n = Inr (has_id i n)"
  by (auto dest!: is_note_obj simp: id_matches_def get_prop_def has_id_def)





lemma find_note_notes:
  "list_all is_note ns \<Longrightarrow> find_note i ns = Inr (map_option (\<lambda>k. ns ! k) (first_index i ns))"
  by (induction ns) (auto simp: id_matches_note option.map_comp comp_def)

lemma holds_notes_json: "holds_notes f ns \<Longrightarrow> list_all json_value ns"
  using readNotes_json [of f "JArr ns"] by (simp add: holds_notes_def)













section \<open>What each route does to a store of notes\<close>

lemma holds_notes_read: "holds_notes f ns \<Longrightarrow> readNotes f = Inr (JArr ns)"
  by (simp add: holds_notes_def)

lemma holds_notes_notes: "holds_notes f ns \<Longrightarrow> list_all is_note ns"
  by (simp add: holds_notes_def)


lemma lookup_json: "json_value (JObj kvs) \<Longrightarrow> lookup kvs k = JUndefined \<or> json_value (lookup kvs k)"
  by (induction kvs) auto

lemma get_prop_json:
  "json_value data \<Longrightarrow> get_prop data k = Inr t \<Longrightarrow> t = JUndefined \<or> json_value t"
  using lookup_json by (cases data) (auto simp: get_prop_def)

lemma json_of_defined: "v \<noteq> JUndefined \<Longrightarrow> json_of v \<noteq> JUndefined"
  by (cases v) simp_all

lemma new_note_stored:
  assumes "json_value data" and "new_note now data = Inr note"
  shows "keys_ok note" and "is_note (json_of note)" and "json_value (json_of note)"
    and "field (json_of note) ''id'' = JNum now"
    and "get_prop data ''title'' = Inr (field (json_of note) ''title'')"
    and "get_prop data ''content'' = Inr (field (json_of note) ''content'')"
proof -
  obtain t c where t: "get_prop data ''title'' = Inr t" and c: "get_prop data ''content'' = Inr c"
    and n: "note = JObj [(''id'', JNum now), (''title'', t), (''content'', c)]"
    using assms(2) by (auto simp: new_note_def split: sum.splits)
  have tj: "t = JUndefined \<or> json_value t" and cj: "c = JUndefined \<or> json_value c"
    using get_prop_json [OF assms(1)] t c by blast+
  show k: "keys_ok note"
    using tj cj by (auto simp: n dest: json_value_keys_ok)
  show "is_note (json_of note)"
    by (simp add: n is_note_def)
  show "json_value (json_of note)"
    using k by (intro json_value_json_of) (simp_all add: n)
  show "field (json_of note) ''id'' = JNum now"
    by (simp add: n)
  show "get_prop data ''title'' = Inr (field (json_of note) ''title'')"
    using tj by (auto simp: n t json_of_id)
  show "get_prop data ''content'' = Inr (field (json_of note) ''content'')"
    using tj cj by (auto simp: n c json_of_id)
qed

lemma json_of_list:
  "list_all json_value ns \<Longrightarrow> map (\<lambda>x. if x = JUndefined then JNull else json_of x) ns = ns"
  by (induction ns) (auto simp: json_of_id)

lemma json_of_notes:
  "list_all json_value ns \<Longrightarrow> note \<noteq> JUndefined \<Longrightarrow>
   json_of (JArr (ns @ [note])) = JArr (ns @ [json_of note])"
  by (simp add: json_of_list)

lemma create_step:
  assumes h: "holds_notes f ns" and d: "json_value data" and n: "new_note now data = Inr note"
  shows "\<exists>f'. writeNotes (JArr (ns @ [note])) = Inr f' \<and> holds_notes f' (ns @ [json_of note])"
proof -
  have j: "list_all json_value ns"
    using h by (rule holds_notes_json)
  have u: "note \<noteq> JUndefined"
    using n by (auto simp: new_note_def split: sum.splits)
  have ko: "keys_ok (JArr (ns @ [note]))"
    using j new_note_stored(1) [OF d n] by (auto simp: list_all_iff dest: json_value_keys_ok)
  have ne: "JArr (ns @ [note]) \<noteq> JUndefined"
    by simp
  from write_read [OF ko ne] obtain f' where
    w: "writeNotes (JArr (ns @ [note])) = Inr f'"
    and r: "readNotes f' = Inr (json_of (JArr (ns @ [note])))"
    by blast
  have "holds_notes f' (ns @ [json_of note])"
    using r holds_notes_notes [OF h] new_note_stored(2) [OF d n]
    unfolding json_of_notes [OF j u] by (simp add: holds_notes_def)
  with w show ?thesis by blast
qed



lemma append_value_json: "json_value x \<Longrightarrow> json_value (append_value x v)"
  by (cases x) (simp_all add: append_value_def)

lemma add_field_keys: "fst ` set (add_field kvs k v) = insert k (fst ` set kvs)"
  by (induction kvs) (force split: if_splits)+

lemma add_field_json:
  "json_value (JObj kvs) \<Longrightarrow> json_value (JObj (add_field kvs k v))"
proof (induction kvs)
  case Nil
  then show ?case by simp
next
  case (Cons p kvs)
  obtain k' x where p: "p = (k', x)" by (cases p)
  show ?case
  proof (cases "k' = k")
    case True
    then show ?thesis
      using Cons.prems by (simp add: p append_value_json)
  next
    case False
    have "json_value (JObj (add_field kvs k v))"
      using Cons by (simp add: p)
    then show ?thesis
      using Cons.prems False by (simp add: p add_field_keys)
  qed
qed

lemma parseBody_json: "json_value (parseBody req)"
proof -
  have "json_value (JObj (fold (\<lambda>(k, v) kvs. add_field kvs k v) ps acc))"
    if "json_value (JObj acc)" for ps acc
    using that
  proof (induction ps arbitrary: acc)
    case Nil
    then show ?case by simp
  next
    case (Cons p ps)
    obtain k v where p: "p = (k, v)" by (cases p)
    show ?case
      using Cons.prems by (simp add: p Cons.IH add_field_json del: json_value.simps(3))
  qed
  then show ?thesis
    by (simp add: parseBody_def)
qed


lemma api_get_notes:
  "holds_notes f ns \<Longrightarrow>
   api_get i f = (case first_index i ns of
                    None \<Rightarrow> (Reply note_not_found_json, f)
                  | Some k \<Rightarrow> (Reply (json_reply 200 (ns ! k)), f))"
  by (simp add: api_get_def attempt_def holds_notes_def as_array_def find_note_notes
        split: option.split)






lemma api_create_notes:
  "holds_notes f ns \<Longrightarrow> JSON_parse (body req) = Inr data \<Longrightarrow>
   api_create now req f =
     (case new_note now data of
        Inl e \<Rightarrow> (Fault e, f)
      | Inr note \<Rightarrow>
          (case writeNotes (JArr (ns @ [note])) of
             Inl e \<Rightarrow> (Fault e, f)
           | Inr f' \<Rightarrow> (Reply (json_reply 201 note), f')))"
  by (simp add: api_create_def attempt_def holds_notes_def as_array_def split: sum.split)

lemma web_create_notes:
  "holds_notes f ns \<Longrightarrow>
   web_create now req f =
     (case new_note now (parseBody req) of
        Inl e \<Rightarrow> (Fault e, f)
      | Inr note \<Rightarrow>
          (case writeNotes (JArr (ns @ [note])) of
             Inl e \<Rightarrow> (Fault e, f)
           | Inr f' \<Rightarrow> (Reply (redirect ''/''), f')))"
  by (simp add: web_create_def attempt_def holds_notes_def as_array_def split: sum.split)

section \<open>Requests by shape\<close>

lemma req_api_get:
  "digits1 ds \<Longrightarrow> is_req ''GET'' (''/api/notes/'' @ ds) req \<Longrightarrow>
   server now req f = api_get (int (dec_value ds)) f"
  by (simp add: is_req_def route_api_get)




lemma req_api_create:
  "is_req ''POST'' ''/api/notes'' req \<Longrightarrow> server now req f = api_create now req f"
  by (simp add: is_req_def route_api_create)

lemma req_web_create:
  "is_req ''POST'' ''/notes/new'' req \<Longrightarrow> server now req f = web_create now req f"
  by (simp add: is_req_def route_web_create)





section \<open>Create, update and delete on a store of notes\<close>

lemma api_created:
  assumes h: "holds_notes f ns" and q: "is_req ''POST'' ''/api/notes'' req"
    and p: "JSON_parse (body req) = Inr data" and n: "new_note now data = Inr note"
  shows "\<exists>f'. server now req f = (Reply (json_reply 201 note), f')
              \<and> holds_notes f' (ns @ [json_of note])"
proof -
  obtain f' where "writeNotes (JArr (ns @ [note])) = Inr f'" "holds_notes f' (ns @ [json_of note])"
    using create_step [OF h JSON_parse_json [OF p] n] by blast
  then show ?thesis
    by (simp add: req_api_create [OF q] api_create_notes [OF h p] n)
qed

lemma web_created:
  assumes h: "holds_notes f ns" and q: "is_req ''POST'' ''/notes/new'' req"
    and n: "new_note now (parseBody req) = Inr note"
  shows "\<exists>f'. server now req f = (Reply (redirect ''/''), f')
              \<and> holds_notes f' (ns @ [json_of note])"
proof -
  obtain f' where "writeNotes (JArr (ns @ [note])) = Inr f'" "holds_notes f' (ns @ [json_of note])"
    using create_step [OF h parseBody_json n] by blast
  then show ?thesis
    by (simp add: req_web_create [OF q] web_create_notes [OF h] n)
qed







section \<open>The claims\<close>

subsection \<open>Reading and writing the file\<close>

text \<open>
  Claim C6.  \<open>readNotes\<close> returns the empty sequence when the file does not exist
  (\<^verbatim>\<open>ENOENT\<close>); every other failure to read and every failure to parse reaches the caller;
  and nothing else gives the empty sequence: when \<open>readNotes\<close> returns it, either the file
  does not exist or the text in the file is itself an empty array.
\<close>

theorem readNotes_fallback:
  "readNotes (Unreadable ''ENOENT'') = Inr (JArr [])
   \<and> (c \<noteq> ''ENOENT'' \<longrightarrow> readNotes (Unreadable c) = Inl (FsError c))
   \<and> (JSON_parse raw = Inl e \<longrightarrow> readNotes (Contents raw) = Inl e)
   \<and> (readNotes f = Inr (JArr []) \<longrightarrow>
        f = Unreadable ''ENOENT'' \<or> (\<exists>s. f = Contents s \<and> JSON_parse s = Inr (JArr [])))"
proof (intro conjI impI)
  show "readNotes (Unreadable ''ENOENT'') = Inr (JArr [])"
    by (simp add: readNotes_Unreadable)
next
  assume "c \<noteq> ''ENOENT''"
  then show "readNotes (Unreadable c) = Inl (FsError c)"
    by (simp add: readNotes_Unreadable)
next
  assume "JSON_parse raw = Inl e"
  then show "readNotes (Contents raw) = Inl e"
    by (simp add: readNotes_Contents)
next
  assume r: "readNotes f = Inr (JArr [])"
  show "f = Unreadable ''ENOENT'' \<or> (\<exists>s. f = Contents s \<and> JSON_parse s = Inr (JArr []))"
  proof (cases f)
    case (Unreadable c)
    with r show ?thesis
      by (simp add: readNotes_Unreadable split: if_splits)
  next
    case (Contents s)
    with r show ?thesis
      by (simp add: readNotes_Contents)
  qed
qed

theorem readNotes_fallback_witness:
  "readNotes (Unreadable ''EACCES'') = Inl (FsError ''EACCES'')
   \<and> readNotes (Contents ''[1,'') = Inl SyntaxError
   \<and> readNotes (Unreadable ''ENOENT'') = Inr (JArr [])
   \<and> JSON_parse ''[ ]'' = Inr (JArr [])"
proof -
  have p: "JSON_parse ''[1,'' = Inl SyntaxError"
    by code_simp
  have q: "JSON_parse ''[ ]'' = Inr (JArr [])"
    by code_simp
  have n: "''EACCES'' \<noteq> ''ENOENT''"
    by simp
  from readNotes_fallback [of "''EACCES''" "''[1,''" SyntaxError "Contents ''[ ]''"]
  have "readNotes (Unreadable ''ENOENT'') = Inr (JArr [])"
    and "''EACCES'' \<noteq> ''ENOENT'' \<longrightarrow> readNotes (Unreadable ''EACCES'') = Inl (FsError ''EACCES'')"
    and "JSON_parse ''[1,'' = Inl SyntaxError \<longrightarrow> readNotes (Contents ''[1,'') = Inl SyntaxError"
    by blast+
  with p q n show ?thesis by blast
qed

text \<open>
  Claim C7.  For every file that reads as a value, writing that value back and reading
  again gives the same value: \<open>writeNotes (readNotes ())\<close> changes the text of the file
  at most in its white space, never in what it denotes.  (A missing file reads as the
  empty array, and the written file reads as the empty array too.)
\<close>

theorem write_read_round_trip:
  assumes "readNotes f = Inr v"
  shows "\<exists>s. JSON_stringify 2 v = Some s \<and> writeNotes v = Inr (Contents s)
             \<and> readNotes (Contents s) = Inr v"
proof -
  have v: "json_value v"
    using assms by (rule readNotes_json)
  obtain s where "JSON_stringify 2 v = Some s" and "JSON_parse s = Inr (json_of v)"
    using JSON_roundtrip [OF json_value_keys_ok [OF v] json_value_defined [OF v]] by blast
  then show ?thesis
    by (simp add: writeNotes_def readNotes_Contents json_of_id [OF v])
qed

theorem write_read_round_trip_witness:
  "readNotes (Contents ''[ {\"id\" : 17,\"title\":\"a b\", \"content\":[null, true]} ]'')
     = Inr (JArr [JObj [(''id'', JNum 17), (''title'', JStr ''a b''),
                        (''content'', JArr [JNull, JBool True])]])
   \<and> (\<exists>s. JSON_stringify 2
              (JArr [JObj [(''id'', JNum 17), (''title'', JStr ''a b''),
                           (''content'', JArr [JNull, JBool True])]]) = Some s
          \<and> readNotes (Contents s)
              = Inr (JArr [JObj [(''id'', JNum 17), (''title'', JStr ''a b''),
                                 (''content'', JArr [JNull, JBool True])]]))"
proof -
  have "JSON_parse ''[ {\"id\" : 17,\"title\":\"a b\", \"content\":[null, true]} ]''
     = Inr (JArr [JObj [(''id'', JNum 17), (''title'', JStr ''a b''),
                        (''content'', JArr [JNull, JBool True])]])"
    by code_simp
  then have r: "readNotes (Contents ''[ {\"id\" : 17,\"title\":\"a b\", \"content\":[null, true]} ]'')
     = Inr (JArr [JObj [(''id'', JNum 17), (''title'', JStr ''a b''),
                        (''content'', JArr [JNull, JBool True])]])"
    by (simp only: readNotes_Contents)
  from write_read_round_trip [OF r]
  have "\<exists>s. JSON_stringify 2
              (JArr [JObj [(''id'', JNum 17), (''title'', JStr ''a b''),
                           (''content'', JArr [JNull, JBool True])]]) = Some s
          \<and> readNotes (Contents s)
              = Inr (JArr [JObj [(''id'', JNum 17), (''title'', JStr ''a b''),
                                 (''content'', JArr [JNull, JBool True])]])"
    by (elim exE conjE, intro exI conjI)
  with r show ?thesis
    by (rule conjI)
qed

subsection \<open>Routing\<close>

text \<open>
  Claim C8.  A request whose path has, in the place of the id, a segment that is not one
  or more decimal digits matches no route: the response is the catch-all 404 page in
  HTML and the file is not touched.  The paths are \<^verbatim>\<open>/api/notes/seg\<close> (whatever \<open>seg\<close>
  is), \<^verbatim>\<open>/notes/seg\<close> for a segment \<open>seg\<close> (no slash in it) other than the literal route
  \<^verbatim>\<open>/notes/new\<close>, \<^verbatim>\<open>/notes/seg/edit\<close> and \<^verbatim>\<open>/notes/seg/delete\<close>; the method is any.
\<close>

theorem malformed_id_not_routed:
  assumes "\<not> digits1 seg"
    and "pathname req = ''/api/notes/'' @ seg
         \<or> (pathname req = ''/notes/'' @ seg \<and> CHR ''/'' \<notin> set seg \<and> seg \<noteq> ''new'')
         \<or> pathname req = ''/notes/'' @ seg @ ''/edit''
         \<or> pathname req = ''/notes/'' @ seg @ ''/delete''"
  shows "server now req f = (not_found_page, f)
         \<and> (\<exists>page. renderLayout (JStr ''Not Found'') ''<div>404 Not Found</div>'' = Inr page
              \<and> not_found_page
                  = Reply \<lparr>status = 404, headers = [(''Content-Type'', ''text/html'')],
                           rbody = page\<rparr>)"
proof (rule conjI [OF _ not_found_page_reply])
  consider (api) "pathname req = ''/api/notes/'' @ seg"
    | (plain) "pathname req = ''/notes/'' @ seg" "CHR ''/'' \<notin> set seg" "seg \<noteq> ''new''"
    | (edit) "pathname req = ''/notes/'' @ seg @ ''/edit''"
    | (dele) "pathname req = ''/notes/'' @ seg @ ''/delete''"
    using assms(2) by blast
  then show "server now req f = (not_found_page, f)"
  proof cases
    case api
    show ?thesis
      using assms(1) by (simp add: server_def api_routes_def web_routes_def api_path [OF api])
  next
    case plain
    have "\<not> note_sub_path suffix (pathname req)" if "CHR ''/'' \<in> set suffix" for suffix
      using plain(2) that by (intro no_sub_path [OF plain(1)]) auto
    then have "\<not> note_sub_path ''/edit'' (pathname req)"
      and "\<not> note_sub_path ''/delete'' (pathname req)"
      by simp_all
    then show ?thesis
      using assms(1) plain(3) by (simp add: server_def web_routes_def web_path(1-4) [OF plain(1)])
  next
    case edit
    have a: "\<not> digits1 (seg @ ''/edit'')"
      by (simp add: digits1_def not_digit_slash)
    have b: "seg @ ''/edit'' \<noteq> ''new''"
      using last_differs [of "''/edit''" "''new''" seg "[]"] by simp
    have c: "\<not> note_sub_path ''/edit'' (pathname req)"
      using assms(1) by (intro no_sub_path [OF edit]) auto
    have d: "\<not> note_sub_path ''/delete'' (pathname req)"
      using last_differs [of "''/edit''" "''/delete''" seg]
      by (intro no_sub_path [OF edit]) simp
    show ?thesis
      using a b c d by (simp add: server_def web_routes_def web_path(1-4) [OF edit])
  next
    case dele
    have a: "\<not> digits1 (seg @ ''/delete'')"
      by (simp add: digits1_def not_digit_slash)
    have b: "seg @ ''/delete'' \<noteq> ''new''"
      using last_differs [of "''/delete''" "''new''" seg "[]"] by simp
    have c: "\<not> note_sub_path ''/delete'' (pathname req)"
      using assms(1) by (intro no_sub_path [OF dele]) auto
    have d: "\<not> note_sub_path ''/edit'' (pathname req)"
      using last_differs [of "''/delete''" "''/edit''" seg]
      by (intro no_sub_path [OF dele]) simp
    show ?thesis
      using a b c d by (simp add: server_def web_routes_def web_path(1-4) [OF dele])
  qed
qed

theorem malformed_id_not_routed_witness:
  "\<not> digits1 ''12a''
   \<and> server 0 \<lparr>meth = ''DELETE'', pathname = ''/api/notes/12a'', body = [], form_fields = []\<rparr>
        (Contents ''[]'') = (not_found_page, Contents ''[]'')
   \<and> server 0 \<lparr>meth = ''POST'', pathname = ''/notes/12a/delete'', body = [], form_fields = []\<rparr>
        (Contents ''[]'') = (not_found_page, Contents ''[]'')"
proof -
  let ?r1 = "\<lparr>meth = ''DELETE'', pathname = ''/api/notes/12a'', body = [], form_fields = []\<rparr>"
  let ?r2 = "\<lparr>meth = ''POST'', pathname = ''/notes/12a/delete'', body = [], form_fields = []\<rparr>"
  have d: "\<not> digits1 ''12a''"
    by (simp add: digits1_def is_digit_def)
  have p1: "pathname ?r1 = ''/api/notes/'' @ ''12a''
         \<or> (pathname ?r1 = ''/notes/'' @ ''12a'' \<and> CHR ''/'' \<notin> set ''12a'' \<and> ''12a'' \<noteq> ''new'')
         \<or> pathname ?r1 = ''/notes/'' @ ''12a'' @ ''/edit''
         \<or> pathname ?r1 = ''/notes/'' @ ''12a'' @ ''/delete''"
    by simp
  have p2: "pathname ?r2 = ''/api/notes/'' @ ''12a''
         \<or> (pathname ?r2 = ''/notes/'' @ ''12a'' \<and> CHR ''/'' \<notin> set ''12a'' \<and> ''12a'' \<noteq> ''new'')
         \<or> pathname ?r2 = ''/notes/'' @ ''12a'' @ ''/edit''
         \<or> pathname ?r2 = ''/notes/'' @ ''12a'' @ ''/delete''"
    by simp
  have s1: "server 0 ?r1 (Contents ''[]'') = (not_found_page, Contents ''[]'')"
    using malformed_id_not_routed [OF d p1] by (rule conjunct1)
  have s2: "server 0 ?r2 (Contents ''[]'') = (not_found_page, Contents ''[]'')"
    using malformed_id_not_routed [OF d p2] by (rule conjunct1)
  show ?thesis
    using d s1 s2 by (intro conjI)
qed

subsection \<open>Requests for a note that is not there\<close>

lemma example_holds: "holds_notes example_file example_notes"
  by code_simp

lemma is_req_mk_req: "is_req m p (mk_req m p b fs)"
  by (simp add: is_req_def mk_req_def)





subsection \<open>What a change does to the sequence of notes\<close>



subsection \<open>Update\<close>




subsection \<open>Delete\<close>





subsection \<open>Create and fetch\<close>

lemma first_index_append_new:
  "list_all (\<lambda>n. \<not> has_id i n) ns \<Longrightarrow> has_id i x \<Longrightarrow>
   first_index i (ns @ [x]) = Some (length ns)"
  by (induction ns) simp_all

lemma show_int_digits:
  assumes "0 \<le> i"
  shows "digits1 (show_int i)" and "int (dec_value (show_int i)) = i"
  using assms dec_nonempty [of "nat i"] dec_digits [of "nat i"]
  by (simp_all add: show_int_def digits1_def dec_value_dec)



lemma api_create_failed:
  "holds_notes f ns \<Longrightarrow> is_req ''POST'' ''/api/notes'' req \<Longrightarrow>
   JSON_parse (body req) = Inr data \<Longrightarrow> new_note now data = Inl e \<Longrightarrow>
   server now req f = (Fault e, f)"
  by (simp add: req_api_create api_create_notes)

lemma web_create_failed:
  "holds_notes f ns \<Longrightarrow> is_req ''POST'' ''/notes/new'' req \<Longrightarrow>
   new_note now (parseBody req) = Inl e \<Longrightarrow> server now req f = (Fault e, f)"
  by (simp add: req_web_create web_create_notes)

lemma fetch_created:
  assumes h: "holds_notes f' (ns @ [stored])" and s: "json_value stored"
    and i: "field stored ''id'' = JNum now" and pos: "0 < now"
    and fresh: "list_all (\<lambda>n. \<not> has_id now n) ns"
    and g: "is_req ''GET'' (''/api/notes/'' @ show_int now) g"
  shows "server later g f' = (Reply (json_reply 200 stored), f')"
    and "JSON_parse (rbody (json_reply 200 stored)) = Inr stored"
proof -
  have d: "digits1 (show_int now)" and v: "int (dec_value (show_int now)) = now"
    using show_int_digits [of now] pos by simp_all
  have "first_index now (ns @ [stored]) = Some (length ns)"
    using fresh i by (intro first_index_append_new) (simp_all add: has_id_def)
  then show "server later g f' = (Reply (json_reply 200 stored), f')"
    by (simp add: req_api_get [OF d g] api_get_notes [OF h] v)
  show "JSON_parse (rbody (json_reply 200 stored)) = Inr stored"
    using json_text [OF json_value_keys_ok [OF s] json_value_defined [OF s]]
    by (simp add: json_of_id [OF s])
qed

lemma stored_fetched:
  assumes d: "json_value data" and n: "new_note now data = Inr nt"
    and res: "holds_notes f' (ns @ [json_of nt])"
    and pos: "0 < now" and fresh: "list_all (\<lambda>n. \<not> has_id now n) ns"
    and g: "is_req ''GET'' (''/api/notes/'' @ show_int now) g"
  shows "server later g f' = (Reply (json_reply 200 (json_of nt)), f')"
    and "status (json_reply 200 (json_of nt)) = 200"
    and "JSON_parse (rbody (json_reply 200 (json_of nt))) = Inr (json_of nt)"
    and "field (json_of nt) ''id'' = JNum now"
    and "get_prop data ''title'' = Inr (field (json_of nt) ''title'')"
    and "get_prop data ''content'' = Inr (field (json_of nt) ''content'')"
    and "status (json_reply 201 nt) = 201"
    and "JSON_parse (rbody (json_reply 201 nt)) = Inr (json_of nt)"
proof -
  note st = new_note_stored [OF d n]
  note fc = fetch_created [OF res st(3) st(4) pos fresh g]
  show "server later g f' = (Reply (json_reply 200 (json_of nt)), f')"
    by (rule fc(1))
  show "JSON_parse (rbody (json_reply 200 (json_of nt))) = Inr (json_of nt)"
    by (rule fc(2))
  show "field (json_of nt) ''id'' = JNum now"
    by (rule st(4))
  show "get_prop data ''title'' = Inr (field (json_of nt) ''title'')"
    by (rule st(5))
  show "get_prop data ''content'' = Inr (field (json_of nt) ''content'')"
    by (rule st(6))
  show "status (json_reply 200 (json_of nt)) = 200" "status (json_reply 201 nt) = 201"
    by (simp_all add: json_reply_def)
  have u: "nt \<noteq> JUndefined"
    using n by (auto simp: new_note_def split: sum.splits)
  show "JSON_parse (rbody (json_reply 201 nt)) = Inr (json_of nt)"
    by (rule json_text [OF st(1) u])
qed

lemma api_create_answered:
  assumes h: "holds_notes f ns" and q: "is_req ''POST'' ''/api/notes'' req"
    and p: "JSON_parse (body req) = Inr data" and ans: "server now req f = (Reply r, f')"
  shows "\<exists>nt. new_note now data = Inr nt \<and> r = json_reply 201 nt
              \<and> holds_notes f' (ns @ [json_of nt])"
proof (cases "new_note now data")
  case (Inl e)
  have "server now req f = (Fault e, f)"
    by (rule api_create_failed [OF h q p Inl])
  with ans show ?thesis by simp
next
  case (Inr nt)
  obtain f'' where "server now req f = (Reply (json_reply 201 nt), f'')"
    and "holds_notes f'' (ns @ [json_of nt])"
    using api_created [OF h q p Inr] by blast
  with ans Inr show ?thesis by simp
qed

lemma web_create_answered:
  assumes h: "holds_notes f ns" and q: "is_req ''POST'' ''/notes/new'' req"
    and ans: "server now req f = (Reply r, f')"
  shows "\<exists>nt. new_note now (parseBody req) = Inr nt \<and> r = redirect ''/''
              \<and> holds_notes f' (ns @ [json_of nt])"
proof (cases "new_note now (parseBody req)")
  case (Inl e)
  have "server now req f = (Fault e, f)"
    by (rule web_create_failed [OF h q Inl])
  with ans show ?thesis by simp
next
  case (Inr nt)
  obtain f'' where "server now req f = (Reply (redirect ''/''), f'')"
    and "holds_notes f'' (ns @ [json_of nt])"
    using web_created [OF h q Inr] by blast
  with ans Inr show ?thesis by simp
qed

lemma create_paths_differ:
  "is_req m ''/api/notes'' req \<Longrightarrow> \<not> is_req m' ''/notes/new'' req"
  "is_req m ''/notes/new'' req \<Longrightarrow> \<not> is_req m' ''/api/notes'' req"
  by (simp_all add: is_req_def)

text \<open>
  Claim C1, as stated, fails: the id of a new note is the reading of the clock, and
  nothing checks that no note has it yet.  Here the store has a note with the id 5 and a
  note is created at the clock reading 5: the create returns the id 5, which was in use,
  and fetching the id 5 returns the older note, whose title is not the submitted one.
\<close>

theorem create_with_used_id_counterexample:
  "holds_notes example_file example_notes
   \<and> has_id 5 (example_notes ! 0)
   \<and> fst (server 5
            (mk_req ''POST'' ''/api/notes'' ''{\"title\":\"new\",\"content\":\"text\"}'' [])
            example_file)
     = Reply (json_reply 201
         (JObj [(''id'', JNum 5), (''title'', JStr ''new''), (''content'', JStr ''text'')]))
   \<and> fst (server 6 (mk_req ''GET'' ''/api/notes/5'' [] [])
          (snd (server 5
             (mk_req ''POST'' ''/api/notes'' ''{\"title\":\"new\",\"content\":\"text\"}'' [])
             example_file)))
     = Reply (json_reply 200
         (JObj [(''id'', JNum 5), (''title'', JStr ''T''), (''content'', JStr ''C'')]))"
  by code_simp

text \<open>
  Claim C1, amended.  For every create request that is answered (\<^verbatim>\<open>POST /api/notes\<close> with
  a JSON body, or \<^verbatim>\<open>POST /notes/new\<close> with a form body), made at a clock reading that is
  positive and is not the id of a note of the store: the assigned id is that clock
  reading, and \<^verbatim>\<open>GET /api/notes/{id}\<close> for it returns 200 with a note whose title and
  content are the submitted ones (the reads \<^verbatim>\<open>data.title\<close> and \<^verbatim>\<open>data.content\<close> of the
  parsed body).  The JSON create answers 201 with the text of that same note.
\<close>

theorem created_note_is_fetched:
  assumes "holds_notes f ns"
    and "0 < now" and "list_all (\<lambda>n. \<not> has_id now n) ns"
    and "(is_req ''POST'' ''/api/notes'' req \<and> JSON_parse (body req) = Inr data)
         \<or> (is_req ''POST'' ''/notes/new'' req \<and> data = parseBody req)"
    and "server now req f = (Reply r, f')"
    and "is_req ''GET'' (''/api/notes/'' @ show_int now) g"
  shows "\<exists>stored. server later g f' = (Reply (json_reply 200 stored), f')
           \<and> status (json_reply 200 stored) = 200
           \<and> JSON_parse (rbody (json_reply 200 stored)) = Inr stored
           \<and> field stored ''id'' = JNum now
           \<and> get_prop data ''title'' = Inr (field stored ''title'')
           \<and> get_prop data ''content'' = Inr (field stored ''content'')
           \<and> (is_req ''POST'' ''/api/notes'' req \<longrightarrow>
                 status r = 201 \<and> JSON_parse (rbody r) = Inr stored)
           \<and> (is_req ''POST'' ''/notes/new'' req \<longrightarrow> r = redirect ''/'')"
proof -
  from assms(4) show ?thesis
  proof
    assume a: "is_req ''POST'' ''/api/notes'' req \<and> JSON_parse (body req) = Inr data"
    then have q: "is_req ''POST'' ''/api/notes'' req" and p: "JSON_parse (body req) = Inr data"
      by simp_all
    obtain nt where n: "new_note now data = Inr nt" and r: "r = json_reply 201 nt"
      and res: "holds_notes f' (ns @ [json_of nt])"
      using api_create_answered [OF assms(1) q p assms(5)] by blast
    note sf = stored_fetched [OF JSON_parse_json [OF p] n res assms(2,3,6)]
    show ?thesis
    proof (intro exI conjI impI)
      show "server later g f' = (Reply (json_reply 200 (json_of nt)), f')" by (rule sf(1))
      show "status (json_reply 200 (json_of nt)) = 200" by (rule sf(2))
      show "JSON_parse (rbody (json_reply 200 (json_of nt))) = Inr (json_of nt)" by (rule sf(3))
      show "field (json_of nt) ''id'' = JNum now" by (rule sf(4))
      show "get_prop data ''title'' = Inr (field (json_of nt) ''title'')" by (rule sf(5))
      show "get_prop data ''content'' = Inr (field (json_of nt) ''content'')" by (rule sf(6))
      show "status r = 201" unfolding r by (rule sf(7))
      show "JSON_parse (rbody r) = Inr (json_of nt)" unfolding r by (rule sf(8))
      assume "is_req ''POST'' ''/notes/new'' req"
      with create_paths_differ(1) [OF q] show "r = redirect ''/''" by simp
    qed
  next
    assume a: "is_req ''POST'' ''/notes/new'' req \<and> data = parseBody req"
    then have q: "is_req ''POST'' ''/notes/new'' req" and p: "data = parseBody req"
      by simp_all
    obtain nt where n: "new_note now data = Inr nt" and r: "r = redirect ''/''"
      and res: "holds_notes f' (ns @ [json_of nt])"
      using web_create_answered [OF assms(1) q assms(5)] unfolding p by blast
    have d: "json_value data"
      unfolding p by (rule parseBody_json)
    note sf = stored_fetched [OF d n res assms(2,3,6)]
    show ?thesis
    proof (intro exI conjI impI)
      show "server later g f' = (Reply (json_reply 200 (json_of nt)), f')" by (rule sf(1))
      show "status (json_reply 200 (json_of nt)) = 200" by (rule sf(2))
      show "JSON_parse (rbody (json_reply 200 (json_of nt))) = Inr (json_of nt)" by (rule sf(3))
      show "field (json_of nt) ''id'' = JNum now" by (rule sf(4))
      show "get_prop data ''title'' = Inr (field (json_of nt) ''title'')" by (rule sf(5))
      show "get_prop data ''content'' = Inr (field (json_of nt) ''content'')" by (rule sf(6))
      show "r = redirect ''/''" by (rule r)
    next
      assume "is_req ''POST'' ''/api/notes'' req"
      with create_paths_differ(2) [OF q] show "status r = 201" by simp
    next
      assume "is_req ''POST'' ''/api/notes'' req"
      with create_paths_differ(2) [OF q] show "JSON_parse (rbody r) = Inr (json_of nt)" by simp
    qed
  qed
qed

theorem created_note_is_fetched_witness:
  "\<exists>stored.
     server 13 (mk_req ''GET'' ''/api/notes/12'' [] [])
       (snd (server 12
          (mk_req ''POST'' ''/notes/new'' [] [(''title'', ''Hi''), (''content'', ''There'')])
          example_file))
     = (Reply (json_reply 200 stored),
        snd (server 12
          (mk_req ''POST'' ''/notes/new'' [] [(''title'', ''Hi''), (''content'', ''There'')])
          example_file))
     \<and> field stored ''id'' = JNum 12
     \<and> field stored ''title'' = JStr ''Hi''
     \<and> field stored ''content'' = JStr ''There''"
proof -
  let ?req = "mk_req ''POST'' ''/notes/new'' [] [(''title'', ''Hi''), (''content'', ''There'')]"
  let ?g = "mk_req ''GET'' ''/api/notes/12'' [] []"
  have fresh: "list_all (\<lambda>n. \<not> has_id 12 n) example_notes"
    by code_simp
  have q: "is_req ''POST'' ''/notes/new'' ?req"
    by (simp add: is_req_def mk_req_def)
  have s: "show_int 12 = ''12''"
    by code_simp
  have g: "is_req ''GET'' (''/api/notes/'' @ show_int 12) ?g"
    unfolding s by (simp add: is_req_def mk_req_def)
  have a: "server 12 ?req example_file
           = (Reply (redirect ''/''), snd (server 12 ?req example_file))"
    by code_simp
  have t: "get_prop (parseBody ?req) ''title'' = Inr (JStr ''Hi'')"
    and c: "get_prop (parseBody ?req) ''content'' = Inr (JStr ''There'')"
    by code_simp+
  from created_note_is_fetched [OF example_holds _ fresh disjI2 [OF conjI [OF q refl]] a g, of 13]
  obtain stored where
    "server 13 ?g (snd (server 12 ?req example_file))
       = (Reply (json_reply 200 stored), snd (server 12 ?req example_file))"
    "field stored ''id'' = JNum 12"
    "get_prop (parseBody ?req) ''title'' = Inr (field stored ''title'')"
    "get_prop (parseBody ?req) ''content'' = Inr (field stored ''content'')"
    by auto
  then show ?thesis
    using t c by (intro exI [of _ stored]) simp
qed

subsection \<open>One note per id\<close>















subsection \<open>An update that names the id\<close>











end
